theory Spec2Isabelle
  imports Main "HOL-Library.Word"
begin

unbundle bit_operations_syntax

section \<open>Chronos-ITCH: order book, object pool and ITCH field decoding\<close>

text \<open>
  The development embeds the C++ headers \<^verbatim>\<open>book/types.hpp\<close>, \<^verbatim>\<open>book/memory_pool.hpp\<close>,
  \<^verbatim>\<open>book/price_level.hpp\<close>, \<^verbatim>\<open>book/order_book.hpp\<close>, \<^verbatim>\<open>itch/compat.hpp\<close> and
  \<^verbatim>\<open>itch/messages.hpp\<close>.

  Conventions of the embedding:
  \<^item> \<^verbatim>\<open>uint16_t\<close>, \<^verbatim>\<open>uint32_t\<close>, \<^verbatim>\<open>uint64_t\<close> are words of that width; \<^verbatim>\<open>std::size_t\<close>
    indices and counts are naturals.
  \<^item> An \<^verbatim>\<open>Order*\<close> is the index of its slot in the pool's \<^verbatim>\<open>buffer_\<close>
    (\<^verbatim>\<open>ptr - buffer_.data()\<close>); the slots themselves are an explicit store
    \<open>nat \<Rightarrow> Order\<close>, so that the order map, the price levels and the matching loop
    all see one shared, mutable order.
  \<^item> An \<^verbatim>\<open>IntrusiveList<Order>\<close> is the sequence of slots linked between
    \<^verbatim>\<open>head_.next\<close> and the sentinel, oldest first; a \<^verbatim>\<open>std::vector<PriceLevel>\<close> is a list.
  \<^item> The nullable callback \<^verbatim>\<open>on_execution\<close> is a flag (non-null or not) together with
    the sequence of \<^verbatim>\<open>Execution\<close> values it has been invoked with, in invocation order.
\<close>

type_synonym u8 = "8 word"
type_synonym u16 = "16 word"
type_synonym u32 = "32 word"
type_synonym u64 = "64 word"

subsection \<open>types.hpp\<close>

datatype Side = Buy | Sell

text \<open>\<^verbatim>\<open>static_cast<char>(side)\<close> for \<^verbatim>\<open>enum class Side : char { Buy = 'B', Sell = 'S' }\<close>.\<close>

fun side_char :: "Side \<Rightarrow> char" where
  "side_char Buy = CHR ''B''"
| "side_char Sell = CHR ''S''"

record Order =
  order_id :: u64
  order_price :: u64
  order_qty :: u32
  order_side :: char

definition is_buy :: "Order \<Rightarrow> bool" where
  "is_buy ord = (order_side ord = CHR ''B'')"

definition reduce_qty :: "Order \<Rightarrow> u32 \<Rightarrow> Order" where
  "reduce_qty ord fill_qty =
     (if fill_qty \<ge> order_qty ord then ord\<lparr>order_qty := 0\<rparr>
      else ord\<lparr>order_qty := order_qty ord - fill_qty\<rparr>)"

definition is_filled :: "Order \<Rightarrow> bool" where
  "is_filled ord = (order_qty ord = 0)"

subsection \<open>memory_pool.hpp\<close>

record MemPool =
  buffer :: "nat \<Rightarrow> Order"
  free_list :: "nat list"
  free_count :: nat

text \<open>
  The constructor: \<^verbatim>\<open>free_list_[i] = Capacity - 1 - i\<close>, \<^verbatim>\<open>free_count_ = Capacity\<close>.
  The slots are default-constructed orders whose fields are never read before
  \<^verbatim>\<open>add_order\<close> has written all four of them.
\<close>

definition MemPool_init :: "nat \<Rightarrow> MemPool" where
  "MemPool_init Capacity =
     \<lparr>buffer = (\<lambda>_. \<lparr>order_id = 0, order_price = 0, order_qty = 0, order_side = CHR 0x00\<rparr>),
      free_list = map (\<lambda>i. Capacity - 1 - i) [0..<Capacity],
      free_count = Capacity\<rparr>"


text \<open>\<^verbatim>\<open>allocate\<close>: \<open>None\<close> is the null pointer returned when no slot is free.\<close>

definition allocate :: "MemPool \<Rightarrow> nat option \<times> MemPool" where
  "allocate p =
     (if free_count p = 0 then (None, p)
      else (let fc = free_count p - 1
            in (Some (free_list p ! fc), p\<lparr>free_count := fc\<rparr>)))"

text \<open>
  \<^verbatim>\<open>deallocate\<close>: \<^verbatim>\<open>free_list_[free_count_] = index; ++free_count_\<close>. The write is
  inside the vector exactly when \<open>free_count p < length (free_list p)\<close>; the book only
  releases slots it holds, and lemma \<open>run_store\<close> below shows that this bound
  holds at every release in every history of a book.
\<close>

definition deallocate :: "MemPool \<Rightarrow> nat \<Rightarrow> MemPool" where
  "deallocate p index =
     p\<lparr>free_list := (free_list p)[free_count p := index],
       free_count := free_count p + 1\<rparr>"

subsection \<open>price_level.hpp\<close>

record PriceLevel =
  price :: u64
  orders :: "nat list"
  total_volume :: u64

definition PriceLevel_new :: "u64 \<Rightarrow> PriceLevel" where
  "PriceLevel_new level_price = \<lparr>price = level_price, orders = [], total_volume = 0\<rparr>"

definition PriceLevel_empty :: "PriceLevel \<Rightarrow> bool" where
  "PriceLevel_empty level = (orders level = [])"

text \<open>\<^verbatim>\<open>orders.push_back(order); total_volume += order->qty\<close>.\<close>

definition PriceLevel_add_order :: "(nat \<Rightarrow> Order) \<Rightarrow> PriceLevel \<Rightarrow> nat \<Rightarrow> PriceLevel" where
  "PriceLevel_add_order buf level ord =
     level\<lparr>orders := orders level @ [ord],
           total_volume := total_volume level + ucast (order_qty (buf ord))\<rparr>"

text \<open>
  \<^verbatim>\<open>remove_order\<close>: the guarded subtraction, then \<^verbatim>\<open>orders.remove(order)\<close>, which
  unlinks the order from its neighbours.
\<close>

definition PriceLevel_remove_order :: "(nat \<Rightarrow> Order) \<Rightarrow> PriceLevel \<Rightarrow> nat \<Rightarrow> PriceLevel" where
  "PriceLevel_remove_order buf level ord =
     level\<lparr>total_volume :=
             (if ucast (order_qty (buf ord)) \<le> total_volume level
              then total_volume level - ucast (order_qty (buf ord)) else 0),
           orders := remove1 ord (orders level)\<rparr>"

definition reduce_volume :: "PriceLevel \<Rightarrow> u32 \<Rightarrow> PriceLevel" where
  "reduce_volume level filled_qty =
     level\<lparr>total_volume :=
             (if ucast filled_qty \<le> total_volume level
              then total_volume level - ucast filled_qty else 0)\<rparr>"

subsection \<open>order_book.hpp\<close>

record Execution =
  maker_id :: u64
  taker_id :: u64
  exec_price :: u64
  exec_qty :: u32
  maker_side :: Side

record OrderBook =
  bids :: "PriceLevel list"
  asks :: "PriceLevel list"
  order_map :: "u64 \<rightharpoonup> nat"
  pool :: MemPool

definition OrderBook_init :: "nat \<Rightarrow> OrderBook" where
  "OrderBook_init Capacity =
     \<lparr>bids = [], asks = [], order_map = Map.empty, pool = MemPool_init Capacity\<rparr>"

text \<open>
  One iteration of the loop of \<^verbatim>\<open>match_at_level\<close>: the oldest maker of the level is
  filled, the callback (if any) is invoked, and a fully filled maker is popped, erased
  from the order map and released to the pool.
\<close>

definition match_fill ::
  "OrderBook \<Rightarrow> PriceLevel \<Rightarrow> u64 \<Rightarrow> u32 \<Rightarrow> Side \<Rightarrow> bool \<Rightarrow> Execution list
     \<Rightarrow> OrderBook \<times> PriceLevel \<times> u32 \<times> Execution list" where
  "match_fill b level taker remaining mside on_execution calls =
     (let maker = hd (orders level);
          fill_qty = min remaining (order_qty (buffer (pool b) maker));
          calls' = (if on_execution
                    then calls @ [\<lparr>maker_id = order_id (buffer (pool b) maker),
                                   taker_id = taker,
                                   exec_price = price level,
                                   exec_qty = fill_qty,
                                   maker_side = mside\<rparr>]
                    else calls);
          remaining' = remaining - fill_qty;
          level' = reduce_volume level fill_qty;
          buf' = (buffer (pool b))(maker := reduce_qty (buffer (pool b) maker) fill_qty);
          b' = b\<lparr>pool := (pool b)\<lparr>buffer := buf'\<rparr>\<rparr>
      in if is_filled (buf' maker)
         then (b'\<lparr>order_map := (order_map b')(order_id (buf' maker) := None),
                  pool := deallocate (pool b') maker\<rparr>,
               level'\<lparr>orders := tl (orders level')\<rparr>, remaining', calls')
         else (b', level', remaining', calls'))"

lemma match_fill_progress:
  assumes "match_fill b level taker remaining mside cb calls = (b', level', remaining', calls')"
  shows "length (orders level') < length (orders level) \<or> orders level = []
         \<or> (orders level' = orders level \<and> remaining' = 0)"
proof (cases "is_filled (reduce_qty (buffer (pool b) (hd (orders level)))
                (min remaining (order_qty (buffer (pool b) (hd (orders level))))))")
  case True
  with assms have "orders level' = tl (orders level)"
    by (auto simp: match_fill_def Let_def reduce_volume_def)
  then show ?thesis by (cases "orders level") auto
next
  case False
  then have lt: "min remaining (order_qty (buffer (pool b) (hd (orders level))))
                   < order_qty (buffer (pool b) (hd (orders level)))"
    by (auto simp: is_filled_def reduce_qty_def split: if_splits)
  then have "min remaining (order_qty (buffer (pool b) (hd (orders level)))) = remaining"
    by (simp add: min_def split: if_splits)
  with assms False show ?thesis
    by (auto simp: match_fill_def Let_def reduce_volume_def)
qed

function match_at_level ::
  "OrderBook \<Rightarrow> PriceLevel \<Rightarrow> u64 \<Rightarrow> u32 \<Rightarrow> Side \<Rightarrow> bool \<Rightarrow> Execution list
     \<Rightarrow> OrderBook \<times> PriceLevel \<times> u32 \<times> Execution list" where
  "match_at_level b level taker remaining mside on_execution calls =
     (if remaining > 0 \<and> \<not> PriceLevel_empty level
      then (case match_fill b level taker remaining mside on_execution calls of
              (b', level', remaining', calls') \<Rightarrow>
                match_at_level b' level' taker remaining' mside on_execution calls')
      else (b, level, remaining, calls))"
  by pat_completeness auto
termination
  apply (relation "measure (\<lambda>(b, level, taker, remaining, mside, cb, calls).
                   2 * length (orders level) + (if remaining = 0 then 0 else 1))")
   apply simp
  apply (auto simp: PriceLevel_empty_def word_greater_zero_iff
              dest!: sym [THEN match_fill_progress])
  done

declare match_at_level.simps [simp del]


text \<open>
  Unfolding the loop of \<^verbatim>\<open>match_at_level\<close> once, and induction over its iterations.
\<close>

lemma match_at_level_done:
  "\<not> (remaining > 0 \<and> orders level \<noteq> [])
   \<Longrightarrow> match_at_level b level taker remaining mside cb calls = (b, level, remaining, calls)"
  by (auto simp: match_at_level.simps [of b level] PriceLevel_empty_def)

lemma match_at_level_iterate:
  "remaining > 0 \<Longrightarrow> orders level \<noteq> []
   \<Longrightarrow> match_fill b level taker remaining mside cb calls = (b1, l1, r1, c1)
   \<Longrightarrow> match_at_level b level taker remaining mside cb calls
       = match_at_level b1 l1 taker r1 mside cb c1"
  by (simp add: match_at_level.simps [of b level] PriceLevel_empty_def)

lemma match_at_level_induct [consumes 1, case_names stop iterate]:
  assumes run: "match_at_level b level taker remaining mside cb calls = res"
    and stop: "\<And>b level remaining calls.
      \<not> (remaining > 0 \<and> orders level \<noteq> []) \<Longrightarrow> P b level remaining calls (b, level, remaining, calls)"
    and iterate: "\<And>b level remaining calls b1 l1 r1 c1 res.
      remaining > 0 \<Longrightarrow> orders level \<noteq> []
      \<Longrightarrow> match_fill b level taker remaining mside cb calls = (b1, l1, r1, c1)
      \<Longrightarrow> match_at_level b1 l1 taker r1 mside cb c1 = res
      \<Longrightarrow> P b1 l1 r1 c1 res \<Longrightarrow> P b level remaining calls res"
  shows "P b level remaining calls res"
  using run stop iterate
proof (induction b level taker remaining mside cb calls arbitrary: res
       rule: match_at_level.induct)
  case (1 b level taker remaining mside cb calls)
  note run = "1.prems"(1) and stop = "1.prems"(2) and iterate = "1.prems"(3)
  show ?case
  proof (cases "remaining > 0 \<and> orders level \<noteq> []")
    case True
    obtain b1 l1 r1 c1 where
      step: "match_fill b level taker remaining mside cb calls = (b1, l1, r1, c1)"
      by (metis prod_cases4)
    from True step run have
      rest: "match_at_level b1 l1 taker r1 mside cb c1 = res"
      by (simp add: match_at_level_iterate)
    from True have guard: "0 < remaining \<and> \<not> PriceLevel_empty level"
      by (simp add: PriceLevel_empty_def)
    have "P b1 l1 r1 c1 res"
      by (rule "1.IH" [OF guard step [symmetric] refl refl rest stop iterate])
    moreover from True have "remaining > 0" and "orders level \<noteq> []" by simp_all
    ultimately show ?thesis using step rest by (rule iterate [rotated 4])
  next
    case False
    with run have "res = (b, level, remaining, calls)"
      by (simp add: match_at_level_done)
    with False show ?thesis by (simp add: stop)
  qed
qed

text \<open>
  What \<^verbatim>\<open>match_at_level\<close> leaves behind: the loop only stops with nothing left to
  fill or with the level drained, and it never touches the two ladders themselves.
\<close>

lemma match_fill_ladders:
  "match_fill b level taker remaining mside cb calls = (b', level', remaining', calls')
   \<Longrightarrow> bids b' = bids b \<and> asks b' = asks b"
  by (auto simp: match_fill_def Let_def split: if_splits)

lemma match_at_level_exit:
  assumes "match_at_level b level taker remaining mside cb calls = res"
  shows "bids (fst res) = bids b \<and> asks (fst res) = asks b
         \<and> (fst (snd (snd res)) = 0 \<or> orders (fst (snd res)) = [])"
  using assms
proof (induction rule: match_at_level_induct)
  case (stop b level remaining calls)
  then show ?case by (auto simp: word_greater_zero_iff)
next
  case (iterate b level remaining calls b1 l1 r1 c1 res)
  then show ?case using match_fill_ladders [of b level taker remaining mside cb calls b1 l1 r1 c1]
    by simp
qed

lemma match_at_level_exit_tuple:
  "(b', level', remaining', calls') = match_at_level b level taker remaining mside cb calls
   \<Longrightarrow> bids b' = bids b \<and> asks b' = asks b \<and> (remaining' = 0 \<or> orders level' = [])"
  using match_at_level_exit [of b level taker remaining mside cb calls "(b', level', remaining', calls')"]
  by (cases "match_at_level b level taker remaining mside cb calls") auto

text \<open>
  The loop of \<^verbatim>\<open>match_buy\<close>. \<^verbatim>\<open>level\<close> is a reference to \<^verbatim>\<open>asks_.front()\<close>: the
  level that \<^verbatim>\<open>match_at_level\<close> returns is written back to the front of the ladder,
  or the front is erased when the level has been drained.
\<close>

function match_buy_loop ::
  "OrderBook \<Rightarrow> u64 \<Rightarrow> u64 \<Rightarrow> u32 \<Rightarrow> bool \<Rightarrow> Execution list
     \<Rightarrow> OrderBook \<times> u32 \<times> Execution list" where
  "match_buy_loop b taker limit remaining on_execution calls =
     (if remaining > 0 \<and> asks b \<noteq> []
      then (if limit < price (hd (asks b)) then (b, remaining, calls)
            else (case match_at_level b (hd (asks b)) taker remaining Sell on_execution calls of
                    (b', level', remaining', calls') \<Rightarrow>
                      if PriceLevel_empty level'
                      then match_buy_loop (b'\<lparr>asks := tl (asks b')\<rparr>)
                             taker limit remaining' on_execution calls'
                      else match_buy_loop (b'\<lparr>asks := level' # tl (asks b')\<rparr>)
                             taker limit remaining' on_execution calls'))
      else (b, remaining, calls))"
  by pat_completeness auto
termination
  apply (relation "measure (\<lambda>(b, taker, limit, remaining, cb, calls).
                   2 * length (asks b) + (if remaining = 0 then 0 else 1))")
    apply simp
   apply (auto simp: PriceLevel_empty_def word_greater_zero_iff
               dest!: match_at_level_exit_tuple)
  apply (case_tac "asks b"; simp)
  done

declare match_buy_loop.simps [simp del]

definition match_buy ::
  "OrderBook \<Rightarrow> u64 \<Rightarrow> u64 \<Rightarrow> u32 \<Rightarrow> bool \<Rightarrow> OrderBook \<times> u32 \<times> Execution list" where
  "match_buy b taker limit qty on_execution = match_buy_loop b taker limit qty on_execution []"

function match_sell_loop ::
  "OrderBook \<Rightarrow> u64 \<Rightarrow> u64 \<Rightarrow> u32 \<Rightarrow> bool \<Rightarrow> Execution list
     \<Rightarrow> OrderBook \<times> u32 \<times> Execution list" where
  "match_sell_loop b taker limit remaining on_execution calls =
     (if remaining > 0 \<and> bids b \<noteq> []
      then (if limit > price (hd (bids b)) then (b, remaining, calls)
            else (case match_at_level b (hd (bids b)) taker remaining Buy on_execution calls of
                    (b', level', remaining', calls') \<Rightarrow>
                      if PriceLevel_empty level'
                      then match_sell_loop (b'\<lparr>bids := tl (bids b')\<rparr>)
                             taker limit remaining' on_execution calls'
                      else match_sell_loop (b'\<lparr>bids := level' # tl (bids b')\<rparr>)
                             taker limit remaining' on_execution calls'))
      else (b, remaining, calls))"
  by pat_completeness auto
termination
  apply (relation "measure (\<lambda>(b, taker, limit, remaining, cb, calls).
                   2 * length (bids b) + (if remaining = 0 then 0 else 1))")
    apply simp
   apply (auto simp: PriceLevel_empty_def word_greater_zero_iff
               dest!: match_at_level_exit_tuple)
  apply (case_tac "bids b"; simp)
  done

declare match_sell_loop.simps [simp del]

definition match_sell ::
  "OrderBook \<Rightarrow> u64 \<Rightarrow> u64 \<Rightarrow> u32 \<Rightarrow> bool \<Rightarrow> OrderBook \<times> u32 \<times> Execution list" where
  "match_sell b taker limit qty on_execution = match_sell_loop b taker limit qty on_execution []"

text \<open>
  \<^verbatim>\<open>std::lower_bound(first, last, value, comp)\<close> on a range partitioned by
  \<^verbatim>\<open>comp(_, value)\<close>: the position of the first element for which \<^verbatim>\<open>comp\<close> is false
  (\<^verbatim>\<open>last\<close> when there is none). Iterators are positions in the list.
\<close>

definition lower_bound :: "('a \<Rightarrow> bool) \<Rightarrow> 'a list \<Rightarrow> nat" where
  "lower_bound cmp xs = length (takeWhile cmp xs)"

text \<open>\<^verbatim>\<open>vector::insert(it, x)\<close>.\<close>

definition vector_insert :: "'a list \<Rightarrow> nat \<Rightarrow> 'a \<Rightarrow> 'a list" where
  "vector_insert xs it x = take it xs @ x # drop it xs"

definition add_to_bids :: "OrderBook \<Rightarrow> nat \<Rightarrow> OrderBook" where
  "add_to_bids b ord =
     (let buf = buffer (pool b);
          it = lower_bound (\<lambda>level. price level > order_price (buf ord)) (bids b)
      in if it \<noteq> length (bids b) \<and> price (bids b ! it) = order_price (buf ord)
         then b\<lparr>bids := (bids b)[it := PriceLevel_add_order buf (bids b ! it) ord]\<rparr>
         else b\<lparr>bids := vector_insert (bids b) it
                          (PriceLevel_add_order buf (PriceLevel_new (order_price (buf ord))) ord)\<rparr>)"

definition add_to_asks :: "OrderBook \<Rightarrow> nat \<Rightarrow> OrderBook" where
  "add_to_asks b ord =
     (let buf = buffer (pool b);
          it = lower_bound (\<lambda>level. price level < order_price (buf ord)) (asks b)
      in if it \<noteq> length (asks b) \<and> price (asks b ! it) = order_price (buf ord)
         then b\<lparr>asks := (asks b)[it := PriceLevel_add_order buf (asks b ! it) ord]\<rparr>
         else b\<lparr>asks := vector_insert (asks b) it
                          (PriceLevel_add_order buf (PriceLevel_new (order_price (buf ord))) ord)\<rparr>)"

text \<open>
  The loop shared by \<^verbatim>\<open>remove_from_bids\<close> and \<^verbatim>\<open>remove_from_asks\<close>: the first level
  whose price is the order's price loses the order and is erased if that empties it; the
  loop then returns.
\<close>

fun remove_from_levels :: "(nat \<Rightarrow> Order) \<Rightarrow> PriceLevel list \<Rightarrow> nat \<Rightarrow> PriceLevel list" where
  "remove_from_levels buf [] ord = []"
| "remove_from_levels buf (level # rest) ord =
     (if price level = order_price (buf ord)
      then (let level' = PriceLevel_remove_order buf level ord
            in if PriceLevel_empty level' then rest else level' # rest)
      else level # remove_from_levels buf rest ord)"

definition remove_from_bids :: "OrderBook \<Rightarrow> nat \<Rightarrow> OrderBook" where
  "remove_from_bids b ord = b\<lparr>bids := remove_from_levels (buffer (pool b)) (bids b) ord\<rparr>"

definition remove_from_asks :: "OrderBook \<Rightarrow> nat \<Rightarrow> OrderBook" where
  "remove_from_asks b ord = b\<lparr>asks := remove_from_levels (buffer (pool b)) (asks b) ord\<rparr>"

text \<open>
  \<^verbatim>\<open>add_order\<close> returns its boolean, the book it leaves and the executions it has
  reported to the callback, in order.
\<close>

definition add_order ::
  "OrderBook \<Rightarrow> u64 \<Rightarrow> u64 \<Rightarrow> u32 \<Rightarrow> Side \<Rightarrow> bool \<Rightarrow> bool \<times> OrderBook \<times> Execution list" where
  "add_order b ident limit qty side on_execution =
     (if order_map b ident \<noteq> None then (False, b, [])
      else (case (if side = Buy then match_buy b ident limit qty on_execution
                  else match_sell b ident limit qty on_execution) of
              (b1, remaining_qty, calls) \<Rightarrow>
                if remaining_qty = 0 then (True, b1, calls)
                else (case allocate (pool b1) of
                        (None, p) \<Rightarrow> (False, b1\<lparr>pool := p\<rparr>, calls)
                      | (Some ord, p) \<Rightarrow>
                          (let p' = p\<lparr>buffer := (buffer p)(ord :=
                                      \<lparr>order_id = ident, order_price = limit,
                                       order_qty = remaining_qty,
                                       order_side = side_char side\<rparr>)\<rparr>;
                               b2 = b1\<lparr>pool := p'\<rparr>;
                               b3 = (if side = Buy then add_to_bids b2 ord
                                     else add_to_asks b2 ord)
                           in (True, b3\<lparr>order_map := (order_map b3)(ident \<mapsto> ord)\<rparr>, calls)))))"

definition cancel_order :: "OrderBook \<Rightarrow> u64 \<Rightarrow> bool \<times> OrderBook" where
  "cancel_order b ident =
     (case order_map b ident of
        None \<Rightarrow> (False, b)
      | Some ord \<Rightarrow>
          (let b1 = b\<lparr>order_map := (order_map b)(ident := None)\<rparr>;
               b2 = (if is_buy (buffer (pool b1) ord) then remove_from_bids b1 ord
                     else remove_from_asks b1 ord)
           in (True, b2\<lparr>pool := deallocate (pool b2) ord\<rparr>)))"

text \<open>Market data accessors. \<open>None\<close> is \<^verbatim>\<open>std::nullopt\<close>.\<close>

definition best_bid :: "OrderBook \<Rightarrow> u64 option" where
  "best_bid b =
     (if bids b = [] \<or> PriceLevel_empty (hd (bids b)) then None else Some (price (hd (bids b))))"

definition best_ask :: "OrderBook \<Rightarrow> u64 option" where
  "best_ask b =
     (if asks b = [] \<or> PriceLevel_empty (hd (asks b)) then None else Some (price (hd (asks b))))"

definition spread :: "OrderBook \<Rightarrow> u64 option" where
  "spread b =
     (case (best_bid b, best_ask b) of
        (Some bid, Some ask) \<Rightarrow> Some (ask - bid)
      | _ \<Rightarrow> None)"

definition best_bid_volume :: "OrderBook \<Rightarrow> u64" where
  "best_bid_volume b = (if bids b = [] then 0 else total_volume (hd (bids b)))"

definition best_ask_volume :: "OrderBook \<Rightarrow> u64" where
  "best_ask_volume b = (if asks b = [] then 0 else total_volume (hd (asks b)))"


subsection \<open>Histories of a book\<close>

text \<open>
  The calls a client can make on a book, and the book reached from the empty book over
  a fresh pool of \<open>Capacity\<close> slots by a sequence of such calls.
\<close>

datatype Op = AddOrder u64 u64 u32 Side bool | CancelOrder u64

fun apply_op :: "OrderBook \<Rightarrow> Op \<Rightarrow> OrderBook" where
  "apply_op b (AddOrder ident limit qty side on_execution) =
     fst (snd (add_order b ident limit qty side on_execution))"
| "apply_op b (CancelOrder ident) = snd (cancel_order b ident)"

definition run :: "nat \<Rightarrow> Op list \<Rightarrow> OrderBook" where
  "run Capacity ops = foldl apply_op (OrderBook_init Capacity) ops"

section \<open>Properties of the order book\<close>

subsection \<open>Matching never adds to the order map\<close>

lemma match_fill_order_map:
  "match_fill b level taker remaining mside cb calls = (b', level', remaining', calls')
   \<Longrightarrow> order_map b k = None \<Longrightarrow> order_map b' k = None"
  by (auto simp: match_fill_def Let_def split: if_splits)

lemma match_at_level_order_map:
  assumes "match_at_level b level taker remaining mside cb calls = res"
  shows "order_map b k = None \<Longrightarrow> order_map (fst res) k = None"
  using assms
proof (induction rule: match_at_level_induct)
  case (stop b level remaining calls)
  then show ?case by simp
next
  case (iterate b level remaining calls b1 l1 r1 c1 res)
  then show ?case
    using match_fill_order_map [of b level taker remaining mside cb calls b1 l1 r1 c1 k]
    by simp
qed

lemma match_buy_loop_done:
  "\<not> (remaining > 0 \<and> asks b \<noteq> [] \<and> \<not> limit < price (hd (asks b)))
   \<Longrightarrow> match_buy_loop b taker limit remaining cb calls = (b, remaining, calls)"
  by (auto simp: match_buy_loop.simps [of b])

lemma match_buy_loop_iterate:
  "remaining > 0 \<Longrightarrow> asks b \<noteq> [] \<Longrightarrow> \<not> limit < price (hd (asks b))
   \<Longrightarrow> match_at_level b (hd (asks b)) taker remaining Sell cb calls = (b1, l1, r1, c1)
   \<Longrightarrow> match_buy_loop b taker limit remaining cb calls
       = match_buy_loop (b1\<lparr>asks := (if orders l1 = [] then tl (asks b) else l1 # tl (asks b))\<rparr>)
           taker limit r1 cb c1"
  using match_at_level_exit [of b "hd (asks b)" taker remaining Sell cb calls "(b1, l1, r1, c1)"]
  by (simp add: match_buy_loop.simps [of b] PriceLevel_empty_def)

lemma match_buy_loop_induct [consumes 1, case_names stop sweep]:
  assumes run: "match_buy_loop b taker limit remaining cb calls = res"
    and stop: "\<And>b remaining calls.
      \<not> (remaining > 0 \<and> asks b \<noteq> [] \<and> \<not> limit < price (hd (asks b)))
      \<Longrightarrow> P b remaining calls (b, remaining, calls)"
    and sweep: "\<And>b remaining calls b1 l1 r1 c1 res.
      remaining > 0 \<Longrightarrow> asks b \<noteq> [] \<Longrightarrow> \<not> limit < price (hd (asks b))
      \<Longrightarrow> match_at_level b (hd (asks b)) taker remaining Sell cb calls = (b1, l1, r1, c1)
      \<Longrightarrow> match_buy_loop
            (b1\<lparr>asks := (if orders l1 = [] then tl (asks b) else l1 # tl (asks b))\<rparr>)
            taker limit r1 cb c1 = res
      \<Longrightarrow> P (b1\<lparr>asks := (if orders l1 = [] then tl (asks b) else l1 # tl (asks b))\<rparr>) r1 c1 res
      \<Longrightarrow> P b remaining calls res"
  shows "P b remaining calls res"
  using run stop sweep
proof (induction b taker limit remaining cb calls arbitrary: res
       rule: match_buy_loop.induct)
  case (1 b taker limit remaining cb calls)
  note run = "1.prems"(1) and stop = "1.prems"(2) and sweep = "1.prems"(3)
  show ?case
  proof (cases "remaining > 0 \<and> asks b \<noteq> [] \<and> \<not> limit < price (hd (asks b))")
    case False
    with run have "res = (b, remaining, calls)"
      by (simp add: match_buy_loop_done)
    with False show ?thesis by (simp add: stop)
  next
    case True
    then have g: "0 < remaining \<and> asks b \<noteq> []" and c: "\<not> limit < price (hd (asks b))"
      and g1: "0 < remaining" and g2: "asks b \<noteq> []"
      by simp_all
    obtain b1 l1 r1 c1 where
      lvl: "match_at_level b (hd (asks b)) taker remaining Sell cb calls = (b1, l1, r1, c1)"
      by (metis prod_cases4)
    from match_at_level_exit [OF lvl] have same: "asks b1 = asks b"
      by simp
    let ?b2 = "b1\<lparr>asks := (if orders l1 = [] then tl (asks b) else l1 # tl (asks b))\<rparr>"
    from run have rest: "match_buy_loop ?b2 taker limit r1 cb c1 = res"
      by (simp add: match_buy_loop_iterate [OF g1 g2 c lvl])
    have "P ?b2 r1 c1 res"
    proof (cases "PriceLevel_empty l1")
      case True
      then have eq: "?b2 = b1\<lparr>asks := tl (asks b1)\<rparr>"
        by (simp add: PriceLevel_empty_def same)
      show ?thesis
        using "1.IH"(1) [OF g c lvl [symmetric] refl refl True rest [unfolded eq] stop sweep]
        by (simp add: eq)
    next
      case False
      then have eq: "?b2 = b1\<lparr>asks := l1 # tl (asks b1)\<rparr>"
        by (simp add: PriceLevel_empty_def same)
      show ?thesis
        using "1.IH"(2) [OF g c lvl [symmetric] refl refl False rest [unfolded eq] stop sweep]
        by (simp add: eq)
    qed
    from sweep [OF g1 g2 c lvl rest this] show ?thesis .
  qed
qed

lemma match_buy_loop_frame:
  assumes "match_buy_loop b taker limit remaining cb calls = res"
  shows "bids (fst res) = bids b \<and> (order_map b k = None \<longrightarrow> order_map (fst res) k = None)"
  using assms
proof (induction rule: match_buy_loop_induct)
  case (stop b remaining calls)
  show ?case by simp
next
  case (sweep b remaining calls b1 l1 r1 c1 res)
  from match_at_level_exit [OF sweep(4)] match_at_level_order_map [OF sweep(4), of k] sweep(6)
  show ?case by simp
qed

lemma match_sell_loop_done:
  "\<not> (remaining > 0 \<and> bids b \<noteq> [] \<and> \<not> limit > price (hd (bids b)))
   \<Longrightarrow> match_sell_loop b taker limit remaining cb calls = (b, remaining, calls)"
  by (auto simp: match_sell_loop.simps [of b])

lemma match_sell_loop_iterate:
  "remaining > 0 \<Longrightarrow> bids b \<noteq> [] \<Longrightarrow> \<not> limit > price (hd (bids b))
   \<Longrightarrow> match_at_level b (hd (bids b)) taker remaining Buy cb calls = (b1, l1, r1, c1)
   \<Longrightarrow> match_sell_loop b taker limit remaining cb calls
       = match_sell_loop (b1\<lparr>bids := (if orders l1 = [] then tl (bids b) else l1 # tl (bids b))\<rparr>)
           taker limit r1 cb c1"
  using match_at_level_exit [of b "hd (bids b)" taker remaining Buy cb calls "(b1, l1, r1, c1)"]
  by (simp add: match_sell_loop.simps [of b] PriceLevel_empty_def)

lemma match_sell_loop_induct [consumes 1, case_names stop sweep]:
  assumes run: "match_sell_loop b taker limit remaining cb calls = res"
    and stop: "\<And>b remaining calls.
      \<not> (remaining > 0 \<and> bids b \<noteq> [] \<and> \<not> limit > price (hd (bids b)))
      \<Longrightarrow> P b remaining calls (b, remaining, calls)"
    and sweep: "\<And>b remaining calls b1 l1 r1 c1 res.
      remaining > 0 \<Longrightarrow> bids b \<noteq> [] \<Longrightarrow> \<not> limit > price (hd (bids b))
      \<Longrightarrow> match_at_level b (hd (bids b)) taker remaining Buy cb calls = (b1, l1, r1, c1)
      \<Longrightarrow> match_sell_loop
            (b1\<lparr>bids := (if orders l1 = [] then tl (bids b) else l1 # tl (bids b))\<rparr>)
            taker limit r1 cb c1 = res
      \<Longrightarrow> P (b1\<lparr>bids := (if orders l1 = [] then tl (bids b) else l1 # tl (bids b))\<rparr>) r1 c1 res
      \<Longrightarrow> P b remaining calls res"
  shows "P b remaining calls res"
  using run stop sweep
proof (induction b taker limit remaining cb calls arbitrary: res
       rule: match_sell_loop.induct)
  case (1 b taker limit remaining cb calls)
  note run = "1.prems"(1) and stop = "1.prems"(2) and sweep = "1.prems"(3)
  show ?case
  proof (cases "remaining > 0 \<and> bids b \<noteq> [] \<and> \<not> limit > price (hd (bids b))")
    case False
    with run have "res = (b, remaining, calls)"
      by (simp add: match_sell_loop_done)
    with False show ?thesis by (simp add: stop)
  next
    case True
    then have g: "0 < remaining \<and> bids b \<noteq> []" and c: "\<not> limit > price (hd (bids b))"
      and g1: "0 < remaining" and g2: "bids b \<noteq> []"
      by simp_all
    obtain b1 l1 r1 c1 where
      lvl: "match_at_level b (hd (bids b)) taker remaining Buy cb calls = (b1, l1, r1, c1)"
      by (metis prod_cases4)
    from match_at_level_exit [OF lvl] have same: "bids b1 = bids b"
      by simp
    let ?b2 = "b1\<lparr>bids := (if orders l1 = [] then tl (bids b) else l1 # tl (bids b))\<rparr>"
    from run have rest: "match_sell_loop ?b2 taker limit r1 cb c1 = res"
      by (simp add: match_sell_loop_iterate [OF g1 g2 c lvl])
    have "P ?b2 r1 c1 res"
    proof (cases "PriceLevel_empty l1")
      case True
      then have eq: "?b2 = b1\<lparr>bids := tl (bids b1)\<rparr>"
        by (simp add: PriceLevel_empty_def same)
      show ?thesis
        using "1.IH"(1) [OF g c lvl [symmetric] refl refl True rest [unfolded eq] stop sweep]
        by (simp add: eq)
    next
      case False
      then have eq: "?b2 = b1\<lparr>bids := l1 # tl (bids b1)\<rparr>"
        by (simp add: PriceLevel_empty_def same)
      show ?thesis
        using "1.IH"(2) [OF g c lvl [symmetric] refl refl False rest [unfolded eq] stop sweep]
        by (simp add: eq)
    qed
    from sweep [OF g1 g2 c lvl rest this] show ?thesis .
  qed
qed

lemma match_sell_loop_frame:
  assumes "match_sell_loop b taker limit remaining cb calls = res"
  shows "asks (fst res) = asks b \<and> (order_map b k = None \<longrightarrow> order_map (fst res) k = None)"
  using assms
proof (induction rule: match_sell_loop_induct)
  case (stop b remaining calls)
  show ?case by simp
next
  case (sweep b remaining calls b1 l1 r1 c1 res)
  from match_at_level_exit [OF sweep(4)] match_at_level_order_map [OF sweep(4), of k] sweep(6)
  show ?case by simp
qed

subsection \<open>Zero quantity\<close>

text \<open>
  C10. For every book and every identifier that is not in the order map, \<^verbatim>\<open>add_order\<close>
  with quantity zero returns true, reports no execution and returns the very book it was
  given: both ladders, the order map and the pool (with its free count) are unchanged.
\<close>

theorem add_order_zero_qty:
  "order_map b ident = None \<Longrightarrow> add_order b ident limit 0 side cb = (True, b, [])"
  by (simp add: add_order_def match_buy_def match_sell_def
                match_buy_loop.simps [of b] match_sell_loop.simps [of b])

theorem add_order_zero_qty_witness:
  "order_map (run 4 [AddOrder 1 1000000 100 Buy True]) 2 = None
   \<and> add_order (run 4 [AddOrder 1 1000000 100 Buy True]) 2 990000 0 Sell True
       = (True, run 4 [AddOrder 1 1000000 100 Buy True], [])
   \<and> bids (run 4 [AddOrder 1 1000000 100 Buy True]) \<noteq> []"
proof -
  let ?b = "run 4 [AddOrder 1 1000000 100 Buy True]"
  have fresh: "order_map ?b 2 = None"
    by code_simp
  have "bids ?b \<noteq> []"
    by code_simp
  with fresh add_order_zero_qty [OF fresh, of 990000 Sell True] show ?thesis
    by simp
qed

subsection \<open>Market data on an empty side\<close>

text \<open>
  C7, as the code has it. On an empty bid side \<^verbatim>\<open>best_bid\<close> and \<^verbatim>\<open>spread\<close> are
  absent and \<^verbatim>\<open>best_bid_volume\<close> is the number zero; on an empty ask side
  \<^verbatim>\<open>best_ask\<close> and \<^verbatim>\<open>spread\<close> are absent and \<^verbatim>\<open>best_ask_volume\<close> is the number
  zero. The two volume queries return a plain \<^verbatim>\<open>uint64_t\<close>, which has no absent value.
\<close>

theorem market_data_empty_side:
  "(bids b = [] \<longrightarrow> best_bid b = None \<and> spread b = None \<and> best_bid_volume b = 0)
   \<and> (asks b = [] \<longrightarrow> best_ask b = None \<and> spread b = None \<and> best_ask_volume b = 0)"
  by (auto simp: best_bid_def best_ask_def spread_def best_bid_volume_def best_ask_volume_def
           split: option.splits)

theorem market_data_empty_side_witness:
  "bids (OrderBook_init 8) = [] \<and> asks (OrderBook_init 8) = []
   \<and> best_bid (OrderBook_init 8) = None \<and> best_ask (OrderBook_init 8) = None
   \<and> spread (OrderBook_init 8) = None
   \<and> best_bid_volume (OrderBook_init 8) = 0 \<and> best_ask_volume (OrderBook_init 8) = 0"
  using market_data_empty_side [of "OrderBook_init 8"]
  by (simp add: OrderBook_init_def)

text \<open>
  C7 as stated fails for the volume queries: on the empty book they return a value, the
  number zero (as the test \<^verbatim>\<open>EmptyBook_Accessors\<close> expects), where the price queries
  return \<^verbatim>\<open>std::nullopt\<close>.
\<close>

theorem best_volume_empty_counterexample:
  "best_bid_volume (OrderBook_init 8) = 0 \<and> best_ask_volume (OrderBook_init 8) = 0
   \<and> best_bid (OrderBook_init 8) = None \<and> best_ask (OrderBook_init 8) = None"
  by (simp add: best_bid_volume_def best_ask_volume_def best_bid_def best_ask_def
                OrderBook_init_def)

subsection \<open>Shape of the two ladders\<close>

text \<open>
  \<open>ladders_ok\<close>: bid prices strictly descend, ask prices strictly ascend and no level is
  empty. \<open>uncrossed\<close>: every bid price is below every ask price.
\<close>

definition ladders_ok :: "OrderBook \<Rightarrow> bool" where
  "ladders_ok b \<longleftrightarrow>
     sorted_wrt (>) (map price (bids b)) \<and> sorted_wrt (<) (map price (asks b))
     \<and> (\<forall>level \<in> set (bids b). \<not> PriceLevel_empty level)
     \<and> (\<forall>level \<in> set (asks b). \<not> PriceLevel_empty level)"

definition uncrossed :: "OrderBook \<Rightarrow> bool" where
  "uncrossed b \<longleftrightarrow> (\<forall>bid \<in> set (bids b). \<forall>ask \<in> set (asks b). price bid < price ask)"

lemma match_fill_price:
  "match_fill b level taker remaining mside cb calls = (b', level', remaining', calls')
   \<Longrightarrow> price level' = price level"
  by (auto simp: match_fill_def Let_def reduce_volume_def split: if_splits)

lemma match_at_level_price:
  assumes "match_at_level b level taker remaining mside cb calls = res"
  shows "price (fst (snd res)) = price level"
  using assms
proof (induction rule: match_at_level_induct)
  case (stop b level remaining calls)
  show ?case by simp
next
  case (iterate b level remaining calls b1 l1 r1 c1 res)
  then show ?case
    using match_fill_price [of b level taker remaining mside cb calls b1 l1 r1 c1] by simp
qed

text \<open>Inserting into a ladder at the lower bound.\<close>

lemma lower_bound_split:
  "take (lower_bound P xs) xs = takeWhile P xs \<and> drop (lower_bound P xs) xs = dropWhile P xs"
  by (simp add: lower_bound_def takeWhile_eq_take [symmetric] dropWhile_eq_drop [symmetric])

lemma lower_bound_end: "lower_bound P xs \<noteq> length xs \<longleftrightarrow> dropWhile P xs \<noteq> []"
  by (metis append_Nil2 append_eq_conv_conj lower_bound_def lower_bound_split takeWhile_dropWhile_id length_append add_cancel_right_right length_0_conv)

lemma lower_bound_nth:
  "lower_bound P xs \<noteq> length xs \<Longrightarrow> xs ! lower_bound P xs = hd (dropWhile P xs)"
  by (metis lower_bound_end lower_bound_def hd_dropWhile nth_length_takeWhile le_neq_implies_less length_takeWhile_le hd_drop_conv_nth lower_bound_split)

lemma ladder_insert_sorted:
  fixes R :: "u64 \<Rightarrow> u64 \<Rightarrow> bool"
  assumes sorted: "sorted_wrt R (map price xs)"
    and trans: "\<And>a b c. R a b \<Longrightarrow> R b c \<Longrightarrow> R a c"
    and total: "\<And>a b. \<not> R a b \<Longrightarrow> a \<noteq> b \<Longrightarrow> R b a"
    and new: "price new = p"
    and absent: "\<not> (lower_bound (\<lambda>l. R (price l) p) xs \<noteq> length xs
                  \<and> price (xs ! lower_bound (\<lambda>l. R (price l) p) xs) = p)"
  shows "sorted_wrt R (map price (vector_insert xs (lower_bound (\<lambda>l. R (price l) p) xs) new))"
proof -
  let ?P = "\<lambda>l. R (price l) p"
  let ?pre = "takeWhile ?P xs" and ?post = "dropWhile ?P xs"
  have xs: "xs = ?pre @ ?post" by simp
  have ins: "vector_insert xs (lower_bound ?P xs) new = ?pre @ new # ?post"
    by (simp add: vector_insert_def lower_bound_split)
  have "sorted_wrt R (map price ?pre @ map price ?post)"
    using sorted by (simp flip: map_append)
  then have s1: "sorted_wrt R (map price ?pre)" and s2: "sorted_wrt R (map price ?post)"
    and s3: "\<forall>x \<in> set (map price ?pre). \<forall>y \<in> set (map price ?post). R x y"
    unfolding sorted_wrt_append by blast+
  have pre: "\<forall>l \<in> set ?pre. R (price l) p"
    by (auto dest: set_takeWhileD)
  have post: "\<forall>l \<in> set ?post. R p (price l)"
  proof (cases ?post)
    case Nil
    show ?thesis unfolding Nil by simp
  next
    case (Cons l ls)
    then have "\<not> ?P l" by (metis hd_dropWhile list.sel(1) list.distinct(1))
    moreover from absent Cons have "price l \<noteq> p"
      by (metis lower_bound_end lower_bound_nth list.sel(1) list.distinct(1))
    ultimately have h: "R p (price l)" using total by blast
    from s2 have "\<forall>l' \<in> set ls. R (price l) (price l')"
      unfolding Cons by simp
    with h trans show ?thesis unfolding Cons by auto
  qed
  have "sorted_wrt R (map price ?pre @ price new # map price ?post)"
    unfolding sorted_wrt_append
  proof (intro conjI ballI)
    show "sorted_wrt R (map price ?pre)" by (rule s1)
    show "sorted_wrt R (price new # map price ?post)"
      using s2 post new by (simp del: set_map) (auto simp: set_map)
  next
    fix x y
    assume x: "x \<in> set (map price ?pre)" and y: "y \<in> set (price new # map price ?post)"
    from x pre have xp: "R x p" by (auto simp del: takeWhile_eq_all_conv)
    show "R x y"
    proof (cases "y = price new")
      case True
      with xp new show ?thesis by simp
    next
      case False
      with y have "y \<in> set (map price ?post)" by simp
      with s3 x show ?thesis by blast
    qed
  qed
  then show ?thesis
    unfolding ins by simp
qed


text \<open>
  \<^verbatim>\<open>add_to_bids\<close> and \<^verbatim>\<open>add_to_asks\<close> differ only in the comparison; \<open>ladder_add\<close>
  is their common body, used to reason about both at once.
\<close>

definition ladder_add ::
  "(u64 \<Rightarrow> u64 \<Rightarrow> bool) \<Rightarrow> (nat \<Rightarrow> Order) \<Rightarrow> PriceLevel list \<Rightarrow> nat \<Rightarrow> PriceLevel list" where
  "ladder_add R buf xs ord =
     (let it = lower_bound (\<lambda>level. R (price level) (order_price (buf ord))) xs
      in if it \<noteq> length xs \<and> price (xs ! it) = order_price (buf ord)
         then xs[it := PriceLevel_add_order buf (xs ! it) ord]
         else vector_insert xs it
                (PriceLevel_add_order buf (PriceLevel_new (order_price (buf ord))) ord))"

lemma add_to_bids_eq:
  "add_to_bids b ord = b\<lparr>bids := ladder_add (\<lambda>x y. x > y) (buffer (pool b)) (bids b) ord\<rparr>"
  by (simp add: add_to_bids_def ladder_add_def Let_def)

lemma add_to_asks_eq:
  "add_to_asks b ord = b\<lparr>asks := ladder_add (\<lambda>x y. x < y) (buffer (pool b)) (asks b) ord\<rparr>"
  by (simp add: add_to_asks_def ladder_add_def Let_def)

lemma ladder_add_cases:
  obtains (join) pre level post where "xs = pre @ level # post"
      and "price level = order_price (buf ord)"
      and "ladder_add R buf xs ord = pre @ PriceLevel_add_order buf level ord # post"
  | (fresh) pre post where "xs = pre @ post"
      and "ladder_add R buf xs ord
           = pre @ PriceLevel_add_order buf (PriceLevel_new (order_price (buf ord))) ord # post"
proof -
  let ?it = "lower_bound (\<lambda>level. R (price level) (order_price (buf ord))) xs"
  show ?thesis
  proof (cases "?it \<noteq> length xs \<and> price (xs ! ?it) = order_price (buf ord)")
    case True
    then have lt: "?it < length xs"
      using length_takeWhile_le [of "\<lambda>level. R (price level) (order_price (buf ord))" xs]
      by (simp add: lower_bound_def)
    have "xs = take ?it xs @ xs ! ?it # drop (Suc ?it) xs"
      using lt by (rule id_take_nth_drop)
    moreover have "ladder_add R buf xs ord
        = take ?it xs @ PriceLevel_add_order buf (xs ! ?it) ord # drop (Suc ?it) xs"
      using True lt by (simp add: ladder_add_def Let_def upd_conv_take_nth_drop)
    ultimately show ?thesis using True join by blast
  next
    case False
    then have "ladder_add R buf xs ord
        = take ?it xs @ PriceLevel_add_order buf (PriceLevel_new (order_price (buf ord))) ord
            # drop ?it xs"
      by (auto simp: ladder_add_def Let_def vector_insert_def)
    moreover have "xs = take ?it xs @ drop ?it xs" by simp
    ultimately show ?thesis using fresh by blast
  qed
qed

lemma ladder_add_sorted:
  fixes R :: "u64 \<Rightarrow> u64 \<Rightarrow> bool"
  assumes "sorted_wrt R (map price xs)"
    and "\<And>a b c. R a b \<Longrightarrow> R b c \<Longrightarrow> R a c"
    and "\<And>a b. \<not> R a b \<Longrightarrow> a \<noteq> b \<Longrightarrow> R b a"
  shows "sorted_wrt R (map price (ladder_add R buf xs ord))"
proof -
  let ?p = "order_price (buf ord)"
  let ?it = "lower_bound (\<lambda>level. R (price level) ?p) xs"
  show ?thesis
  proof (cases "?it \<noteq> length xs \<and> price (xs ! ?it) = ?p")
    case True
    then have "map price (ladder_add R buf xs ord) = (map price xs)[?it := price (xs ! ?it)]"
      by (simp add: ladder_add_def Let_def map_update PriceLevel_add_order_def)
    also have "\<dots> = map price xs"
      by (metis list_update_id map_update)
    finally show ?thesis using assms(1) by simp
  next
    case False
    have "sorted_wrt R (map price (vector_insert xs ?it
            (PriceLevel_add_order buf (PriceLevel_new ?p) ord)))"
      by (rule ladder_insert_sorted [OF assms(1) assms(2) assms(3) _ False])
         (simp_all add: PriceLevel_add_order_def PriceLevel_new_def)
    with False show ?thesis by (auto simp: ladder_add_def Let_def)
  qed
qed

lemma ladder_add_prices:
  "set (map price (ladder_add R buf xs ord)) = insert (order_price (buf ord)) (set (map price xs))"
  by (cases rule: ladder_add_cases [of xs buf ord R])
     (auto simp: PriceLevel_add_order_def PriceLevel_new_def)

lemma ladder_add_nonempty:
  "\<forall>level \<in> set xs. \<not> PriceLevel_empty level
   \<Longrightarrow> \<forall>level \<in> set (ladder_add R buf xs ord). \<not> PriceLevel_empty level"
  by (cases rule: ladder_add_cases [of xs buf ord R])
     (auto simp: PriceLevel_add_order_def PriceLevel_empty_def)

lemma remove_from_levels_cases:
  obtains (none) "\<forall>level \<in> set xs. price level \<noteq> order_price (buf ord)"
      and "remove_from_levels buf xs ord = xs"
  | (hit) pre level post where "xs = pre @ level # post"
      and "\<forall>l \<in> set pre. price l \<noteq> order_price (buf ord)"
      and "price level = order_price (buf ord)"
      and "remove_from_levels buf xs ord
           = pre @ (if PriceLevel_empty (PriceLevel_remove_order buf level ord) then []
                    else [PriceLevel_remove_order buf level ord]) @ post"
proof -
  have "(\<forall>level \<in> set xs. price level \<noteq> order_price (buf ord))
          \<and> remove_from_levels buf xs ord = xs
        \<or> (\<exists>pre level post. xs = pre @ level # post
             \<and> (\<forall>l \<in> set pre. price l \<noteq> order_price (buf ord))
             \<and> price level = order_price (buf ord)
             \<and> remove_from_levels buf xs ord
                 = pre @ (if PriceLevel_empty (PriceLevel_remove_order buf level ord) then []
                          else [PriceLevel_remove_order buf level ord]) @ post)"
  proof (induction xs)
    case Nil
    show ?case by simp
  next
    case (Cons x xs)
    show ?case
    proof (cases "price x = order_price (buf ord)")
      case True
      then have "remove_from_levels buf (x # xs) ord
           = [] @ (if PriceLevel_empty (PriceLevel_remove_order buf x ord) then []
                    else [PriceLevel_remove_order buf x ord]) @ xs"
        by (simp add: Let_def)
      with True show ?thesis by (metis append_Nil empty_iff empty_set)
    next
      case False
      from Cons.IH show ?thesis
      proof (elim disjE exE conjE)
        assume "\<forall>level \<in> set xs. price level \<noteq> order_price (buf ord)"
          and "remove_from_levels buf xs ord = xs"
        with False show ?thesis by simp
      next
        fix pre level post
        assume "xs = pre @ level # post"
          and "\<forall>l \<in> set pre. price l \<noteq> order_price (buf ord)"
          and "price level = order_price (buf ord)"
          and "remove_from_levels buf xs ord
                 = pre @ (if PriceLevel_empty (PriceLevel_remove_order buf level ord) then []
                          else [PriceLevel_remove_order buf level ord]) @ post"
        with False have "x # xs = (x # pre) @ level # post"
          and "\<forall>l \<in> set (x # pre). price l \<noteq> order_price (buf ord)"
          and "price level = order_price (buf ord)"
          and "remove_from_levels buf (x # xs) ord
                 = (x # pre) @ (if PriceLevel_empty (PriceLevel_remove_order buf level ord) then []
                          else [PriceLevel_remove_order buf level ord]) @ post"
          by simp_all
        then show ?thesis by blast
      qed
    qed
  qed
  with none hit show ?thesis by blast
qed

lemma remove_from_levels_shape:
  assumes "sorted_wrt R (map price xs)" and "\<forall>level \<in> set xs. \<not> PriceLevel_empty level"
  shows "sorted_wrt R (map price (remove_from_levels buf xs ord))
         \<and> (\<forall>level \<in> set (remove_from_levels buf xs ord). \<not> PriceLevel_empty level)
         \<and> set (map price (remove_from_levels buf xs ord)) \<subseteq> set (map price xs)"
proof (cases rule: remove_from_levels_cases [of xs buf ord])
  case none
  with assms show ?thesis by simp
next
  case (hit pre level post)
  have p: "price (PriceLevel_remove_order buf level ord) = price level"
    by (simp add: PriceLevel_remove_order_def)
  from assms(1) have "sorted_wrt R (map price pre @ price level # map price post)"
    unfolding hit(1) by simp
  then have "sorted_wrt R (map price pre @ map price post)"
    and "sorted_wrt R (map price pre @ price level # map price post)"
    by (auto simp: sorted_wrt_append)
  with assms(2) show ?thesis
    unfolding hit(4) by (auto simp: p hit(1))
qed

lemma match_buy_loop_shape:
  assumes "match_buy_loop b taker limit remaining cb calls = res"
  shows "ladders_ok b \<Longrightarrow> uncrossed b
         \<Longrightarrow> ladders_ok (fst res) \<and> uncrossed (fst res)
             \<and> (fst (snd res) \<noteq> 0 \<longrightarrow> (\<forall>ask \<in> set (asks (fst res)). limit < price ask))"
  using assms
proof (induction rule: match_buy_loop_induct)
  case (stop b remaining calls)
  have "\<forall>ask \<in> set (asks b). limit < price ask" if "remaining \<noteq> 0"
  proof (cases "asks b")
    case Nil
    then show ?thesis by simp
  next
    case (Cons l ls)
    with stop(1) that have "limit < price l"
      by (auto simp: word_greater_zero_iff)
    moreover from stop(2) Cons have "\<forall>ask \<in> set ls. price l < price ask"
      by (simp add: ladders_ok_def)
    ultimately show ?thesis unfolding Cons by auto
  qed
  with stop show ?case by simp
next
  case (sweep b remaining calls b1 l1 r1 c1 res)
  let ?b2 = "b1\<lparr>asks := (if orders l1 = [] then tl (asks b) else l1 # tl (asks b))\<rparr>"
  from match_at_level_exit [OF sweep(4)] have same: "bids b1 = bids b" "asks b1 = asks b"
    by simp_all
  from match_at_level_price [OF sweep(4)] have px: "price l1 = price (hd (asks b))"
    by simp
  from sweep(2) obtain l ls where ladder: "asks b = l # ls"
    by (cases "asks b") auto
  from sweep(7) have "ladders_ok ?b2"
    using same px by (auto simp: ladders_ok_def ladder PriceLevel_empty_def)
  moreover from sweep(8) have "uncrossed ?b2"
    using same px by (auto simp: uncrossed_def ladder)
  ultimately show ?case using sweep(6) by simp
qed

lemma match_sell_loop_shape:
  assumes "match_sell_loop b taker limit remaining cb calls = res"
  shows "ladders_ok b \<Longrightarrow> uncrossed b
         \<Longrightarrow> ladders_ok (fst res) \<and> uncrossed (fst res)
             \<and> (fst (snd res) \<noteq> 0 \<longrightarrow> (\<forall>bid \<in> set (bids (fst res)). price bid < limit))"
  using assms
proof (induction rule: match_sell_loop_induct)
  case (stop b remaining calls)
  have "\<forall>bid \<in> set (bids b). price bid < limit" if "remaining \<noteq> 0"
  proof (cases "bids b")
    case Nil
    then show ?thesis by simp
  next
    case (Cons l ls)
    with stop(1) that have "price l < limit"
      by (auto simp: word_greater_zero_iff)
    moreover from stop(2) Cons have "\<forall>bid \<in> set ls. price bid < price l"
      by (simp add: ladders_ok_def)
    ultimately show ?thesis unfolding Cons by auto
  qed
  with stop show ?case by simp
next
  case (sweep b remaining calls b1 l1 r1 c1 res)
  let ?b2 = "b1\<lparr>bids := (if orders l1 = [] then tl (bids b) else l1 # tl (bids b))\<rparr>"
  from match_at_level_exit [OF sweep(4)] have same: "bids b1 = bids b" "asks b1 = asks b"
    by simp_all
  from match_at_level_price [OF sweep(4)] have px: "price l1 = price (hd (bids b))"
    by simp
  from sweep(2) obtain l ls where ladder: "bids b = l # ls"
    by (cases "bids b") auto
  from sweep(7) have "ladders_ok ?b2"
    using same px by (auto simp: ladders_ok_def ladder PriceLevel_empty_def)
  moreover from sweep(8) have "uncrossed ?b2"
    using same px by (auto simp: uncrossed_def ladder)
  ultimately show ?case using sweep(6) by simp
qed

lemma ladders_ok_frame [simp]:
  "ladders_ok (b\<lparr>pool := p\<rparr>) = ladders_ok b"
  "ladders_ok (b\<lparr>order_map := m\<rparr>) = ladders_ok b"
  by (simp_all add: ladders_ok_def)

lemma uncrossed_frame [simp]:
  "uncrossed (b\<lparr>pool := p\<rparr>) = uncrossed b"
  "uncrossed (b\<lparr>order_map := m\<rparr>) = uncrossed b"
  by (simp_all add: uncrossed_def)

lemma add_to_bids_shape:
  assumes "ladders_ok b" and "uncrossed b"
    and "\<forall>ask \<in> set (asks b). order_price (buffer (pool b) ord) < price ask"
  shows "ladders_ok (add_to_bids b ord) \<and> uncrossed (add_to_bids b ord)"
proof -
  let ?xs = "ladder_add (\<lambda>x y. x > y) (buffer (pool b)) (bids b) ord"
  have sorted: "sorted_wrt (\<lambda>x y. x > y) (map price ?xs)"
  proof (rule ladder_add_sorted)
    show "sorted_wrt (\<lambda>x y. x > y) (map price (bids b))"
      using assms(1) by (simp add: ladders_ok_def)
    show "\<And>x y z :: u64. (\<lambda>x y. x > y) x y \<Longrightarrow> (\<lambda>x y. x > y) y z \<Longrightarrow> (\<lambda>x y. x > y) x z"
      by simp
    show "\<And>x y :: u64. \<not> (\<lambda>x y. x > y) x y \<Longrightarrow> x \<noteq> y \<Longrightarrow> (\<lambda>x y. x > y) y x"
      by simp
  qed
  have nonempty: "\<forall>level \<in> set ?xs. \<not> PriceLevel_empty level"
    using assms(1) by (intro ladder_add_nonempty) (simp add: ladders_ok_def)
  have mem: "price l = order_price (buffer (pool b) ord) \<or> price l \<in> price ` set (bids b)"
    if "l \<in> set ?xs" for l
  proof -
    from that have "price l \<in> set (map price ?xs)" by simp
    then show ?thesis unfolding ladder_add_prices by simp
  qed
  have cross: "price l < price m" if "l \<in> set ?xs" and "m \<in> set (asks b)" for l m
    using mem [OF that(1)] that(2) assms(2,3) by (auto simp: uncrossed_def)
  from sorted nonempty cross assms(1) show ?thesis
    by (simp add: add_to_bids_eq ladders_ok_def uncrossed_def)
qed

lemma add_to_asks_shape:
  assumes "ladders_ok b" and "uncrossed b"
    and "\<forall>bid \<in> set (bids b). price bid < order_price (buffer (pool b) ord)"
  shows "ladders_ok (add_to_asks b ord) \<and> uncrossed (add_to_asks b ord)"
proof -
  let ?xs = "ladder_add (\<lambda>x y. x < y) (buffer (pool b)) (asks b) ord"
  have sorted: "sorted_wrt (\<lambda>x y. x < y) (map price ?xs)"
  proof (rule ladder_add_sorted)
    show "sorted_wrt (\<lambda>x y. x < y) (map price (asks b))"
      using assms(1) by (simp add: ladders_ok_def)
    show "\<And>x y z :: u64. (\<lambda>x y. x < y) x y \<Longrightarrow> (\<lambda>x y. x < y) y z \<Longrightarrow> (\<lambda>x y. x < y) x z"
      by simp
    show "\<And>x y :: u64. \<not> (\<lambda>x y. x < y) x y \<Longrightarrow> x \<noteq> y \<Longrightarrow> (\<lambda>x y. x < y) y x"
      by simp
  qed
  have nonempty: "\<forall>level \<in> set ?xs. \<not> PriceLevel_empty level"
    using assms(1) by (intro ladder_add_nonempty) (simp add: ladders_ok_def)
  have mem: "price l = order_price (buffer (pool b) ord) \<or> price l \<in> price ` set (asks b)"
    if "l \<in> set ?xs" for l
  proof -
    from that have "price l \<in> set (map price ?xs)" by simp
    then show ?thesis unfolding ladder_add_prices by simp
  qed
  have cross: "price m < price l" if "l \<in> set ?xs" and "m \<in> set (bids b)" for l m
    using mem [OF that(1)] that(2) assms(2,3) by (auto simp: uncrossed_def)
  from sorted nonempty cross assms(1) show ?thesis
    by (simp add: add_to_asks_eq ladders_ok_def uncrossed_def)
qed

lemma add_order_shape:
  assumes ok: "ladders_ok b" "uncrossed b"
  shows "ladders_ok (fst (snd (add_order b ident limit qty side cb)))
         \<and> uncrossed (fst (snd (add_order b ident limit qty side cb)))"
proof (cases "order_map b ident \<noteq> None")
  case True
  with ok show ?thesis by (simp add: add_order_def)
next
  case fresh: False
  obtain b1 rem calls where
    phase: "(if side = Buy then match_buy b ident limit qty cb
             else match_sell b ident limit qty cb) = (b1, rem, calls)"
    by (metis prod_cases3)
  have loop: "ladders_ok b1 \<and> uncrossed b1
      \<and> (rem \<noteq> 0 \<longrightarrow> (if side = Buy then \<forall>ask \<in> set (asks b1). limit < price ask
                        else \<forall>bid \<in> set (bids b1). price bid < limit))"
  proof (cases "side = Buy")
    case True
    with phase have "match_buy_loop b ident limit qty cb [] = (b1, rem, calls)"
      by (simp add: match_buy_def)
    from match_buy_loop_shape [OF this ok] True show ?thesis by simp
  next
    case False
    with phase have "match_sell_loop b ident limit qty cb [] = (b1, rem, calls)"
      by (simp add: match_sell_def)
    from match_sell_loop_shape [OF this ok] False show ?thesis by simp
  qed
  then have shape1: "ladders_ok b1 \<and> uncrossed b1"
    and stop: "rem \<noteq> 0 \<Longrightarrow> (if side = Buy then \<forall>ask \<in> set (asks b1). limit < price ask
                              else \<forall>bid \<in> set (bids b1). price bid < limit)"
    by simp_all
  show ?thesis
  proof (cases "rem = 0")
    case True
    with fresh phase shape1 show ?thesis by (simp add: add_order_def)
  next
    case residual: False
    show ?thesis
    proof (cases "allocate (pool b1)")
      case (Pair slot p)
      show ?thesis
      proof (cases slot)
        case None
        with fresh phase residual Pair shape1 show ?thesis by (simp add: add_order_def)
      next
        case (Some ord)
        let ?p' = "p\<lparr>buffer := (buffer p)(ord := \<lparr>order_id = ident, order_price = limit,
                      order_qty = rem, order_side = side_char side\<rparr>)\<rparr>"
        let ?b2 = "b1\<lparr>pool := ?p'\<rparr>"
        have px: "order_price (buffer (pool ?b2) ord) = limit" by simp
        have "ladders_ok (if side = Buy then add_to_bids ?b2 ord else add_to_asks ?b2 ord)
              \<and> uncrossed (if side = Buy then add_to_bids ?b2 ord else add_to_asks ?b2 ord)"
        proof (cases "side = Buy")
          case True
          with stop [OF residual] have "\<forall>ask \<in> set (asks ?b2). order_price (buffer (pool ?b2) ord) < price ask"
            by simp
          with shape1 True show ?thesis
            using add_to_bids_shape [of ?b2 ord] by simp
        next
          case False
          with stop [OF residual] have "\<forall>bid \<in> set (bids ?b2). price bid < order_price (buffer (pool ?b2) ord)"
            by simp
          with shape1 False show ?thesis
            using add_to_asks_shape [of ?b2 ord] by simp
        qed
        with fresh phase residual Pair Some show ?thesis
          by (simp add: add_order_def Let_def)
      qed
    qed
  qed
qed

lemma remove_from_bids_shape:
  assumes "ladders_ok b" and "uncrossed b"
  shows "ladders_ok (remove_from_bids b ord) \<and> uncrossed (remove_from_bids b ord)"
proof -
  let ?xs = "remove_from_levels (buffer (pool b)) (bids b) ord"
  from assms(1) have s: "sorted_wrt (>) (map price (bids b))"
    and n: "\<forall>level \<in> set (bids b). \<not> PriceLevel_empty level"
    by (simp_all add: ladders_ok_def)
  note r = remove_from_levels_shape [OF s n, of "buffer (pool b)" ord]
  have sub: "price bid \<in> price ` set (bids b)" if "bid \<in> set ?xs" for bid
  proof -
    from that have "price bid \<in> set (map price ?xs)" by simp
    with r show ?thesis by auto
  qed
  have "price bid < price ask" if "bid \<in> set ?xs" and "ask \<in> set (asks b)" for bid ask
    using sub [OF that(1)] that(2) assms(2) by (auto simp: uncrossed_def)
  then have "\<forall>bid \<in> set ?xs. \<forall>ask \<in> set (asks b). price bid < price ask"
    by blast
  with r assms(1) show ?thesis
    by (simp add: remove_from_bids_def ladders_ok_def uncrossed_def)
qed

lemma remove_from_asks_shape:
  assumes "ladders_ok b" and "uncrossed b"
  shows "ladders_ok (remove_from_asks b ord) \<and> uncrossed (remove_from_asks b ord)"
proof -
  let ?xs = "remove_from_levels (buffer (pool b)) (asks b) ord"
  from assms(1) have s: "sorted_wrt (<) (map price (asks b))"
    and n: "\<forall>level \<in> set (asks b). \<not> PriceLevel_empty level"
    by (simp_all add: ladders_ok_def)
  note r = remove_from_levels_shape [OF s n, of "buffer (pool b)" ord]
  have sub: "price ask \<in> price ` set (asks b)" if "ask \<in> set ?xs" for ask
  proof -
    from that have "price ask \<in> set (map price ?xs)" by simp
    with r show ?thesis by auto
  qed
  have "price bid < price ask" if "bid \<in> set (bids b)" and "ask \<in> set ?xs" for bid ask
    using sub [OF that(2)] that(1) assms(2) by (auto simp: uncrossed_def)
  then have "\<forall>bid \<in> set (bids b). \<forall>ask \<in> set ?xs. price bid < price ask"
    by blast
  with r assms(1) show ?thesis
    by (simp add: remove_from_asks_def ladders_ok_def uncrossed_def)
qed

lemma cancel_order_shape:
  assumes ok: "ladders_ok b" "uncrossed b"
  shows "ladders_ok (snd (cancel_order b ident)) \<and> uncrossed (snd (cancel_order b ident))"
proof (cases "order_map b ident")
  case None
  with ok show ?thesis by (simp add: cancel_order_def)
next
  case (Some ord)
  let ?b1 = "b\<lparr>order_map := (order_map b)(ident := None)\<rparr>"
  from ok have "ladders_ok ?b1" "uncrossed ?b1" by simp_all
  from remove_from_bids_shape [OF this, of ord] remove_from_asks_shape [OF this, of ord] Some
  show ?thesis
    by (simp add: cancel_order_def Let_def)
qed

lemma run_snoc: "run Capacity (ops @ [x]) = apply_op (run Capacity ops) x"
  by (simp add: run_def)

lemma run_shape: "ladders_ok (run Capacity ops) \<and> uncrossed (run Capacity ops)"
proof (induction ops rule: rev_induct)
  case Nil
  show ?case by (simp add: run_def OrderBook_init_def ladders_ok_def uncrossed_def)
next
  case (snoc x ops)
  then show ?case
    by (cases x) (simp_all add: run_snoc add_order_shape cancel_order_shape)
qed

text \<open>
  C5. In every book reached from the empty book by a sequence of \<^verbatim>\<open>add_order\<close> and
  \<^verbatim>\<open>cancel_order\<close> calls, bid prices strictly descend, ask prices strictly ascend, and
  no level of either ladder is empty.
\<close>

theorem ladders_strictly_monotone:
  "sorted_wrt (>) (map price (bids (run Capacity ops)))
   \<and> sorted_wrt (<) (map price (asks (run Capacity ops)))
   \<and> (\<forall>level \<in> set (bids (run Capacity ops)) \<union> set (asks (run Capacity ops)).
         \<not> PriceLevel_empty level)"
  using run_shape [of Capacity ops] by (auto simp: ladders_ok_def)

text \<open>
  C4. In every such book with both sides non-empty, \<^verbatim>\<open>best_bid\<close> and \<^verbatim>\<open>best_ask\<close>
  are present and the best ask is strictly above the best bid.
\<close>

theorem spread_positive:
  assumes "bids (run Capacity ops) \<noteq> []" and "asks (run Capacity ops) \<noteq> []"
  shows "\<exists>bid ask. best_bid (run Capacity ops) = Some bid
           \<and> best_ask (run Capacity ops) = Some ask \<and> bid < ask"
proof -
  from assms obtain l ls m ms where
    "bids (run Capacity ops) = l # ls" "asks (run Capacity ops) = m # ms"
    by (metis list.exhaust)
  with run_shape [of Capacity ops] show ?thesis
    by (simp add: ladders_ok_def uncrossed_def best_bid_def best_ask_def)
qed


theorem ladders_strictly_monotone_witness:
  "map price (bids (run 8 [AddOrder 1 990000 50 Buy True, AddOrder 2 1000000 100 Buy True,
        AddOrder 3 1020000 10 Sell True, AddOrder 4 1010000 10 Sell True, CancelOrder 9]))
     = [1000000, 990000]
   \<and> map price (asks (run 8 [AddOrder 1 990000 50 Buy True, AddOrder 2 1000000 100 Buy True,
        AddOrder 3 1020000 10 Sell True, AddOrder 4 1010000 10 Sell True, CancelOrder 9]))
     = [1010000, 1020000]
   \<and> sorted_wrt (>) (map price (bids (run 8 [AddOrder 1 990000 50 Buy True,
        AddOrder 2 1000000 100 Buy True, AddOrder 3 1020000 10 Sell True,
        AddOrder 4 1010000 10 Sell True, CancelOrder 9])))
   \<and> sorted_wrt (<) (map price (asks (run 8 [AddOrder 1 990000 50 Buy True,
        AddOrder 2 1000000 100 Buy True, AddOrder 3 1020000 10 Sell True,
        AddOrder 4 1010000 10 Sell True, CancelOrder 9])))
   \<and> \<not> PriceLevel_empty (hd (bids (run 8 [AddOrder 1 990000 50 Buy True,
        AddOrder 2 1000000 100 Buy True, AddOrder 3 1020000 10 Sell True,
        AddOrder 4 1010000 10 Sell True, CancelOrder 9])))"
proof -
  let ?b = "run 8 [AddOrder 1 990000 50 Buy True, AddOrder 2 1000000 100 Buy True,
        AddOrder 3 1020000 10 Sell True, AddOrder 4 1010000 10 Sell True, CancelOrder 9]"
  have b: "map price (bids ?b) = [1000000, 990000]"
    by code_simp
  have a: "map price (asks ?b) = [1010000, 1020000]"
    by code_simp
  from b have "hd (bids ?b) \<in> set (bids ?b)"
    by (cases "bids ?b") auto
  with ladders_strictly_monotone [of 8 "[AddOrder 1 990000 50 Buy True,
        AddOrder 2 1000000 100 Buy True, AddOrder 3 1020000 10 Sell True,
        AddOrder 4 1010000 10 Sell True, CancelOrder 9]"] a b
  show ?thesis by blast
qed

theorem spread_positive_witness:
  "bids (run 8 [AddOrder 1 1000000 100 Buy True, AddOrder 2 1010000 50 Sell True]) \<noteq> []
   \<and> asks (run 8 [AddOrder 1 1000000 100 Buy True, AddOrder 2 1010000 50 Sell True]) \<noteq> []
   \<and> best_bid (run 8 [AddOrder 1 1000000 100 Buy True, AddOrder 2 1010000 50 Sell True])
       = Some 1000000
   \<and> best_ask (run 8 [AddOrder 1 1000000 100 Buy True, AddOrder 2 1010000 50 Sell True])
       = Some 1010000
   \<and> (\<exists>bid ask. best_bid (run 8 [AddOrder 1 1000000 100 Buy True, AddOrder 2 1010000 50 Sell True])
                   = Some bid
        \<and> best_ask (run 8 [AddOrder 1 1000000 100 Buy True, AddOrder 2 1010000 50 Sell True])
                   = Some ask
        \<and> bid < ask)"
proof -
  let ?b = "run 8 [AddOrder 1 1000000 100 Buy True, AddOrder 2 1010000 50 Sell True]"
  have h1: "bids ?b \<noteq> []" and h2: "asks ?b \<noteq> []"
    by code_simp+
  have v: "best_bid ?b = Some 1000000" "best_ask ?b = Some 1010000"
    by code_simp+
  from spread_positive [OF h1 h2] h1 h2 v show ?thesis
    by blast
qed

subsection \<open>The store: pool, order map and levels agree\<close>

text \<open>
  \<open>live b\<close> lists the slots linked into the levels of either ladder, and
  \<open>free_slots p\<close> the slots on the pool's free stack.
  \<^item> \<open>pool_ok\<close>: the free stack has \<open>Capacity\<close> entries, held and free slots together
    number \<open>Capacity\<close>, and no slot occurs twice among them;
  \<^item> \<open>index_ok\<close>: the order map takes the identifier of every held order to its slot
    and has no other entry;
  \<^item> \<open>level_ok\<close>: every order of a level carries the level's price and the ladder's
    side, and has a non-zero remaining quantity.
\<close>

definition slots :: "PriceLevel list \<Rightarrow> nat list" where
  "slots ladder = concat (map orders ladder)"

definition live :: "OrderBook \<Rightarrow> nat list" where
  "live b = slots (bids b) @ slots (asks b)"

definition free_slots :: "MemPool \<Rightarrow> nat list" where
  "free_slots p = take (free_count p) (free_list p)"

definition pool_ok :: "nat \<Rightarrow> MemPool \<Rightarrow> nat list \<Rightarrow> bool" where
  "pool_ok Capacity p held \<longleftrightarrow>
     length (free_list p) = Capacity \<and> length held + free_count p = Capacity
     \<and> distinct (held @ free_slots p)"

definition index_ok :: "(u64 \<rightharpoonup> nat) \<Rightarrow> (nat \<Rightarrow> Order) \<Rightarrow> nat set \<Rightarrow> bool" where
  "index_ok m buf held \<longleftrightarrow>
     (\<forall>k s. m k = Some s \<longrightarrow> s \<in> held \<and> order_id (buf s) = k)
     \<and> (\<forall>s \<in> held. m (order_id (buf s)) = Some s)"

definition level_ok :: "(nat \<Rightarrow> Order) \<Rightarrow> char \<Rightarrow> PriceLevel \<Rightarrow> bool" where
  "level_ok buf c level \<longleftrightarrow>
     (\<forall>s \<in> set (orders level).
        order_price (buf s) = price level \<and> order_side (buf s) = c \<and> order_qty (buf s) \<noteq> 0)"

definition store_inv :: "nat \<Rightarrow> OrderBook \<Rightarrow> bool" where
  "store_inv Capacity b \<longleftrightarrow>
     pool_ok Capacity (pool b) (live b)
     \<and> index_ok (order_map b) (buffer (pool b)) (set (live b))
     \<and> (\<forall>level \<in> set (bids b). level_ok (buffer (pool b)) CHR ''B'' level)
     \<and> (\<forall>level \<in> set (asks b). level_ok (buffer (pool b)) CHR ''S'' level)"

lemma level_ok_cong:
  "\<forall>s \<in> set (orders level). buf' s = buf s \<Longrightarrow> level_ok buf' c level = level_ok buf c level"
  by (simp add: level_ok_def)

lemma free_slots_deallocate:
  "free_count p < length (free_list p) \<Longrightarrow> free_slots (deallocate p s) = free_slots p @ [s]"
  by (simp add: free_slots_def deallocate_def take_Suc_conv_app_nth)

lemma pool_ok_release:
  assumes "pool_ok Capacity p (s # held)"
  shows "pool_ok Capacity (deallocate p s) held"
proof -
  from assms have "free_count p < length (free_list p)"
    by (simp add: pool_ok_def)
  from free_slots_deallocate [OF this, of s] assms show ?thesis
    by (auto simp: pool_ok_def deallocate_def)
qed

lemma pool_ok_buffer [simp]: "pool_ok Capacity (p\<lparr>buffer := buf\<rparr>) held = pool_ok Capacity p held"
  by (simp add: pool_ok_def free_slots_def)

lemma index_ok_release:
  assumes "index_ok m buf (insert s held)" and "s \<notin> held"
    and "order_id (buf' s) = order_id (buf s)" and "\<forall>t \<in> held. buf' t = buf t"
  shows "index_ok (m(order_id (buf s) := None)) buf' held"
proof -
  have "t \<in> held \<and> order_id (buf' t) = k" if "(m(order_id (buf s) := None)) k = Some t" for k t
  proof -
    from that have k: "k \<noteq> order_id (buf s)" and m: "m k = Some t"
      by (auto split: if_splits)
    from assms(1) m have t: "t \<in> insert s held" "order_id (buf t) = k"
      by (auto simp: index_ok_def)
    with k have "t \<noteq> s" by auto
    with t assms(4) show ?thesis by auto
  qed
  moreover have "(m(order_id (buf s) := None)) (order_id (buf' t)) = Some t" if t: "t \<in> held" for t
  proof -
    from t assms(1) have mt: "m (order_id (buf t)) = Some t"
      by (simp add: index_ok_def)
    from assms(1) have ms: "m (order_id (buf s)) = Some s"
      by (simp add: index_ok_def)
    from t assms(2) have "t \<noteq> s" by auto
    with mt ms have "order_id (buf t) \<noteq> order_id (buf s)" by auto
    with mt t assms(4) show ?thesis by simp
  qed
  ultimately show ?thesis unfolding index_ok_def by blast
qed

lemma index_ok_update:
  assumes "index_ok m buf held"
    and "\<forall>t \<in> held. order_id (buf' t) = order_id (buf t)"
  shows "index_ok m buf' held"
  using assms by (simp add: index_ok_def)


text \<open>The two outcomes of one iteration of \<^verbatim>\<open>match_at_level\<close>, spelled out.\<close>

lemma match_fill_filled:
  assumes "orders level = s # rest" and "order_qty (buffer (pool b) s) \<le> remaining"
  shows "match_fill b level taker remaining mside cb calls =
    (b\<lparr>pool := deallocate ((pool b)\<lparr>buffer := (buffer (pool b))
                  (s := (buffer (pool b) s)\<lparr>order_qty := 0\<rparr>)\<rparr>) s,
       order_map := (order_map b)(order_id (buffer (pool b) s) := None)\<rparr>,
     (reduce_volume level (order_qty (buffer (pool b) s)))\<lparr>orders := rest\<rparr>,
     remaining - order_qty (buffer (pool b) s),
     if cb then calls @ [\<lparr>maker_id = order_id (buffer (pool b) s), taker_id = taker,
                           exec_price = price level,
                           exec_qty = order_qty (buffer (pool b) s), maker_side = mside\<rparr>]
     else calls)"
  using assms
  by (simp add: match_fill_def Let_def min_absorb2 reduce_qty_def is_filled_def
                reduce_volume_def)

lemma match_fill_partial:
  assumes "orders level = s # rest" and "remaining < order_qty (buffer (pool b) s)"
  shows "match_fill b level taker remaining mside cb calls =
    (b\<lparr>pool := (pool b)\<lparr>buffer := (buffer (pool b))
                  (s := (buffer (pool b) s)\<lparr>order_qty := order_qty (buffer (pool b) s) - remaining\<rparr>)\<rparr>\<rparr>,
     reduce_volume level remaining,
     0,
     if cb then calls @ [\<lparr>maker_id = order_id (buffer (pool b) s), taker_id = taker,
                           exec_price = price level,
                           exec_qty = remaining, maker_side = mside\<rparr>]
     else calls)"
proof -
  from assms(2) have "min remaining (order_qty (buffer (pool b) s)) = remaining"
    by (simp add: min_absorb1)
  moreover from assms(2) have "order_qty (buffer (pool b) s) - remaining \<noteq> 0"
    by auto
  moreover from assms(2) have "\<not> order_qty (buffer (pool b) s) \<le> remaining"
    by simp
  ultimately show ?thesis using assms(1)
    by (simp add: match_fill_def Let_def reduce_qty_def is_filled_def)
qed

lemma match_fill_store:
  assumes step: "match_fill b level taker remaining mside cb calls = (b', level', remaining', calls')"
    and ne: "orders level \<noteq> []"
    and pool: "pool_ok Capacity (pool b) (orders level @ others)"
    and idx: "index_ok (order_map b) (buffer (pool b)) (set (orders level @ others))"
    and lvl: "level_ok (buffer (pool b)) c level"
  shows "pool_ok Capacity (pool b') (orders level' @ others)
         \<and> index_ok (order_map b') (buffer (pool b')) (set (orders level' @ others))
         \<and> level_ok (buffer (pool b')) c level'
         \<and> (\<forall>t \<in> set others. buffer (pool b') t = buffer (pool b) t)"
proof -
  from ne obtain s rest where lv: "orders level = s # rest"
    by (cases "orders level") auto
  let ?buf = "buffer (pool b)"
  from pool lv have d: "distinct (s # rest @ others)"
    by (auto simp: pool_ok_def)
  then have fresh: "s \<notin> set rest" "s \<notin> set others" by auto
  show ?thesis
  proof (cases "order_qty (?buf s) \<le> remaining")
    case True
    let ?buf' = "?buf(s := (?buf s)\<lparr>order_qty := 0\<rparr>)"
    from step match_fill_filled [OF lv True, of taker mside cb calls] have
      b': "b' = b\<lparr>pool := deallocate ((pool b)\<lparr>buffer := ?buf'\<rparr>) s,
                  order_map := (order_map b)(order_id (?buf s) := None)\<rparr>"
      and l': "level' = (reduce_volume level (order_qty (?buf s)))\<lparr>orders := rest\<rparr>"
      by simp_all
    have buf': "buffer (pool b') = ?buf'"
      by (simp add: b' deallocate_def)
    have "pool_ok Capacity (pool b') (orders level' @ others)"
      using pool_ok_release [of Capacity "(pool b)\<lparr>buffer := ?buf'\<rparr>" s "rest @ others"] pool
      by (simp add: b' l' lv reduce_volume_def)
    moreover have "index_ok (order_map b') (buffer (pool b')) (set (orders level' @ others))"
      unfolding buf'
      using index_ok_release [of "order_map b" ?buf s "set (rest @ others)" ?buf'] idx fresh
      by (simp add: b' l' lv reduce_volume_def)
    moreover have "level_ok (buffer (pool b')) c level'"
      using lvl fresh unfolding buf' by (auto simp: level_ok_def l' lv reduce_volume_def)
    moreover have "\<forall>t \<in> set others. buffer (pool b') t = ?buf t"
      using fresh unfolding buf' by auto
    ultimately show ?thesis by blast
  next
    case False
    then have lt: "remaining < order_qty (?buf s)" by simp
    let ?buf' = "?buf(s := (?buf s)\<lparr>order_qty := order_qty (?buf s) - remaining\<rparr>)"
    from step match_fill_partial [OF lv lt, of taker mside cb calls] have
      b': "b' = b\<lparr>pool := (pool b)\<lparr>buffer := ?buf'\<rparr>\<rparr>"
      and l': "level' = reduce_volume level remaining"
      by simp_all
    from lt have nz: "order_qty (?buf s) - remaining \<noteq> 0" by auto
    have "pool_ok Capacity (pool b') (orders level' @ others)"
      using pool by (simp add: b' l' reduce_volume_def)
    moreover have "index_ok (order_map b) ?buf' (set (orders level @ others))"
      using idx by (rule index_ok_update) simp
    then have "index_ok (order_map b') (buffer (pool b')) (set (orders level' @ others))"
      by (simp add: b' l' reduce_volume_def)
    moreover have "level_ok (buffer (pool b')) c level'"
      using lvl nz by (auto simp: level_ok_def b' l' lv reduce_volume_def)
    moreover have "\<forall>t \<in> set others. buffer (pool b') t = ?buf t"
      using fresh by (auto simp: b')
    ultimately show ?thesis by blast
  qed
qed


lemma match_at_level_store:
  assumes "match_at_level b level taker remaining mside cb calls = res"
  shows "pool_ok Capacity (pool b) (orders level @ others)
     \<Longrightarrow> index_ok (order_map b) (buffer (pool b)) (set (orders level @ others))
     \<Longrightarrow> level_ok (buffer (pool b)) c level
     \<Longrightarrow> pool_ok Capacity (pool (fst res)) (orders (fst (snd res)) @ others)
         \<and> index_ok (order_map (fst res)) (buffer (pool (fst res)))
              (set (orders (fst (snd res)) @ others))
         \<and> level_ok (buffer (pool (fst res))) c (fst (snd res))
         \<and> (\<forall>t \<in> set others. buffer (pool (fst res)) t = buffer (pool b) t)"
  using assms
proof (induction rule: match_at_level_induct)
  case (stop b level remaining calls)
  then show ?case by simp
next
  case (iterate b level remaining calls b1 l1 r1 c1 res)
  from match_fill_store [OF iterate(3) iterate(2) iterate(6) iterate(7) iterate(8)]
  have 1: "pool_ok Capacity (pool b1) (orders l1 @ others)"
    and 2: "index_ok (order_map b1) (buffer (pool b1)) (set (orders l1 @ others))"
    and 3: "level_ok (buffer (pool b1)) c l1"
    and 4: "\<forall>t \<in> set others. buffer (pool b1) t = buffer (pool b) t"
    by simp_all
  from iterate(5) [OF 1 2 3] 4 show ?case by simp
qed

lemma slots_Cons [simp]: "slots (level # ladder) = orders level @ slots ladder"
  by (simp add: slots_def)

lemma slots_Nil [simp]: "slots [] = []"
  by (simp add: slots_def)

lemma slots_append [simp]: "slots (xs @ ys) = slots xs @ slots ys"
  by (simp add: slots_def)

lemma in_slots: "level \<in> set ladder \<Longrightarrow> set (orders level) \<subseteq> set (slots ladder)"
  by (auto simp: slots_def)

lemma pool_ok_perm:
  "set held = set held' \<Longrightarrow> length held = length held' \<Longrightarrow> distinct held = distinct held'
   \<Longrightarrow> pool_ok Capacity p held = pool_ok Capacity p held'"
  by (auto simp: pool_ok_def)

lemma match_buy_sweep_store:
  assumes inv: "store_inv Capacity b" and ladder: "asks b = l # ls"
    and run: "match_at_level b l taker remaining Sell cb calls = (b1, l1, r1, c1)"
  shows "store_inv Capacity (b1\<lparr>asks := (if orders l1 = [] then ls else l1 # ls)\<rparr>)
         \<and> (\<forall>t \<in> set (slots (bids b) @ slots ls). buffer (pool b1) t = buffer (pool b) t)
         \<and> distinct (orders l)"
proof -
  let ?b2 = "b1\<lparr>asks := (if orders l1 = [] then ls else l1 # ls)\<rparr>"
  from match_at_level_exit [OF run] have same: "bids b1 = bids b" "asks b1 = asks b"
    by simp_all
  let ?others = "slots (bids b) @ slots ls"
  from inv have p: "pool_ok Capacity (pool b) (orders l @ ?others)"
    and i: "index_ok (order_map b) (buffer (pool b)) (set (orders l @ ?others))"
    and lv: "level_ok (buffer (pool b)) CHR ''S'' l"
    and bl: "\<forall>level \<in> set (bids b). level_ok (buffer (pool b)) CHR ''B'' level"
    and al: "\<forall>level \<in> set ls. level_ok (buffer (pool b)) CHR ''S'' level"
    by (auto simp: store_inv_def live_def ladder pool_ok_def Un_ac)
  from match_at_level_store [OF run p i lv]
  have p1: "pool_ok Capacity (pool b1) (orders l1 @ ?others)"
    and i1: "index_ok (order_map b1) (buffer (pool b1)) (set (orders l1 @ ?others))"
    and lv1: "level_ok (buffer (pool b1)) CHR ''S'' l1"
    and fr: "\<forall>t \<in> set ?others. buffer (pool b1) t = buffer (pool b) t"
    by simp_all
  have live2: "set (live ?b2) = set (orders l1 @ ?others)"
    "length (live ?b2) = length (orders l1 @ ?others)"
    "distinct (live ?b2) = distinct (orders l1 @ ?others)"
    by (auto simp: live_def same ladder)
  have "pool_ok Capacity (pool ?b2) (live ?b2)"
    using p1 pool_ok_perm [OF live2, of Capacity "pool b1"] by simp
  moreover have "index_ok (order_map ?b2) (buffer (pool ?b2)) (set (live ?b2))"
    using i1 unfolding live2(1) by simp
  moreover have "\<forall>level \<in> set (bids ?b2). level_ok (buffer (pool ?b2)) CHR ''B'' level"
  proof
    fix level assume m: "level \<in> set (bids ?b2)"
    with in_slots [of level "bids b"] fr have "\<forall>s \<in> set (orders level). buffer (pool b1) s = buffer (pool b) s"
      by (auto simp: same)
    from level_ok_cong [OF this] bl m show "level_ok (buffer (pool ?b2)) CHR ''B'' level"
      by (simp add: same)
  qed
  moreover have "\<forall>level \<in> set (asks ?b2). level_ok (buffer (pool ?b2)) CHR ''S'' level"
  proof
    fix level assume m: "level \<in> set (asks ?b2)"
    show "level_ok (buffer (pool ?b2)) CHR ''S'' level"
    proof (cases "level \<in> set ls")
      case True
      with in_slots [of level ls] fr have "\<forall>s \<in> set (orders level). buffer (pool b1) s = buffer (pool b) s"
        by auto
      from level_ok_cong [OF this] al True show ?thesis by simp
    next
      case False
      with m have "level = l1" by (auto split: if_splits)
      with lv1 show ?thesis by simp
    qed
  qed
  ultimately have "store_inv Capacity ?b2"
    by (simp add: store_inv_def)
  moreover from p have "distinct (orders l)"
    by (simp add: pool_ok_def)
  ultimately show ?thesis using fr by blast
qed

lemma match_buy_loop_store:
  assumes "match_buy_loop b taker limit remaining cb calls = res"
  shows "store_inv Capacity b \<Longrightarrow> store_inv Capacity (fst res)"
  using assms
proof (induction rule: match_buy_loop_induct)
  case (stop b remaining calls)
  then show ?case by simp
next
  case (sweep b remaining calls b1 l1 r1 c1 res)
  from sweep(2) obtain l ls where ladder: "asks b = l # ls"
    by (cases "asks b") auto
  with sweep(4) have run: "match_at_level b l taker remaining Sell cb calls = (b1, l1, r1, c1)"
    by simp
  from match_buy_sweep_store [OF sweep(7) ladder run] sweep(6) [unfolded ladder list.sel]
  show ?case by blast
qed

lemma match_sell_sweep_store:
  assumes inv: "store_inv Capacity b" and ladder: "bids b = l # ls"
    and run: "match_at_level b l taker remaining Buy cb calls = (b1, l1, r1, c1)"
  shows "store_inv Capacity (b1\<lparr>bids := (if orders l1 = [] then ls else l1 # ls)\<rparr>)
         \<and> (\<forall>t \<in> set (slots ls @ slots (asks b)). buffer (pool b1) t = buffer (pool b) t)
         \<and> distinct (orders l)"
proof -
  let ?b2 = "b1\<lparr>bids := (if orders l1 = [] then ls else l1 # ls)\<rparr>"
  from match_at_level_exit [OF run] have same: "bids b1 = bids b" "asks b1 = asks b"
    by simp_all
  let ?others = "slots ls @ slots (asks b)"
  from inv have p: "pool_ok Capacity (pool b) (orders l @ ?others)"
    and i: "index_ok (order_map b) (buffer (pool b)) (set (orders l @ ?others))"
    and lv: "level_ok (buffer (pool b)) CHR ''B'' l"
    and bl: "\<forall>level \<in> set (asks b). level_ok (buffer (pool b)) CHR ''S'' level"
    and al: "\<forall>level \<in> set ls. level_ok (buffer (pool b)) CHR ''B'' level"
    by (auto simp: store_inv_def live_def ladder pool_ok_def Un_ac)
  from match_at_level_store [OF run p i lv]
  have p1: "pool_ok Capacity (pool b1) (orders l1 @ ?others)"
    and i1: "index_ok (order_map b1) (buffer (pool b1)) (set (orders l1 @ ?others))"
    and lv1: "level_ok (buffer (pool b1)) CHR ''B'' l1"
    and fr: "\<forall>t \<in> set ?others. buffer (pool b1) t = buffer (pool b) t"
    by simp_all
  have live2: "set (live ?b2) = set (orders l1 @ ?others)"
    "length (live ?b2) = length (orders l1 @ ?others)"
    "distinct (live ?b2) = distinct (orders l1 @ ?others)"
    by (auto simp: live_def same ladder)
  have "pool_ok Capacity (pool ?b2) (live ?b2)"
    using p1 pool_ok_perm [OF live2, of Capacity "pool b1"] by simp
  moreover have "index_ok (order_map ?b2) (buffer (pool ?b2)) (set (live ?b2))"
    using i1 unfolding live2(1) by simp
  moreover have "\<forall>level \<in> set (asks ?b2). level_ok (buffer (pool ?b2)) CHR ''S'' level"
  proof
    fix level assume m: "level \<in> set (asks ?b2)"
    with in_slots [of level "asks b"] fr have "\<forall>s \<in> set (orders level). buffer (pool b1) s = buffer (pool b) s"
      by (auto simp: same)
    from level_ok_cong [OF this] bl m show "level_ok (buffer (pool ?b2)) CHR ''S'' level"
      by (simp add: same)
  qed
  moreover have "\<forall>level \<in> set (bids ?b2). level_ok (buffer (pool ?b2)) CHR ''B'' level"
  proof
    fix level assume m: "level \<in> set (bids ?b2)"
    show "level_ok (buffer (pool ?b2)) CHR ''B'' level"
    proof (cases "level \<in> set ls")
      case True
      with in_slots [of level ls] fr have "\<forall>s \<in> set (orders level). buffer (pool b1) s = buffer (pool b) s"
        by auto
      from level_ok_cong [OF this] al True show ?thesis by simp
    next
      case False
      with m have "level = l1" by (auto split: if_splits)
      with lv1 show ?thesis by simp
    qed
  qed
  ultimately have "store_inv Capacity ?b2"
    by (simp add: store_inv_def)
  moreover from p have "distinct (orders l)"
    by (simp add: pool_ok_def)
  ultimately show ?thesis using fr by blast
qed

lemma match_sell_loop_store:
  assumes "match_sell_loop b taker limit remaining cb calls = res"
  shows "store_inv Capacity b \<Longrightarrow> store_inv Capacity (fst res)"
  using assms
proof (induction rule: match_sell_loop_induct)
  case (stop b remaining calls)
  then show ?case by simp
next
  case (sweep b remaining calls b1 l1 r1 c1 res)
  from sweep(2) obtain l ls where ladder: "bids b = l # ls"
    by (cases "bids b") auto
  with sweep(4) have run: "match_at_level b l taker remaining Buy cb calls = (b1, l1, r1, c1)"
    by simp
  from match_sell_sweep_store [OF sweep(7) ladder run] sweep(6) [unfolded ladder list.sel]
  show ?case by blast
qed

lemma pool_ok_acquire:
  assumes "pool_ok Capacity p0 held" and "allocate p0 = (Some ord, p)"
  shows "pool_ok Capacity p (ord # held) \<and> ord \<notin> set held \<and> buffer p = buffer p0"
proof -
  from assms(2) have fc: "free_count p0 \<noteq> 0"
    and p: "p = p0\<lparr>free_count := free_count p0 - 1\<rparr>"
    and ord: "ord = free_list p0 ! (free_count p0 - 1)"
    by (auto simp: allocate_def Let_def split: if_splits)
  from assms(1) fc have "free_count p0 - 1 < length (free_list p0)"
    by (auto simp: pool_ok_def)
  from take_Suc_conv_app_nth [OF this] fc ord
  have "free_slots p0 = free_slots p @ [ord]"
    by (simp add: free_slots_def p)
  with assms(1) fc show ?thesis
    by (auto simp: pool_ok_def p)
qed

lemma index_ok_insert:
  assumes "index_ok m buf held" and "ord \<notin> held" and "m ident = None"
    and "order_id (buf' ord) = ident" and "\<forall>t. t \<noteq> ord \<longrightarrow> buf' t = buf t"
  shows "index_ok (m(ident \<mapsto> ord)) buf' (insert ord held)"
proof -
  have "t \<in> insert ord held \<and> order_id (buf' t) = k" if "(m(ident \<mapsto> ord)) k = Some t" for k t
  proof (cases "k = ident")
    case True
    with that assms(4) show ?thesis by simp
  next
    case False
    with that have "m k = Some t" by simp
    with assms(1) have "t \<in> held" "order_id (buf t) = k" by (auto simp: index_ok_def)
    with assms(2,5) show ?thesis by auto
  qed
  moreover have "(m(ident \<mapsto> ord)) (order_id (buf' t)) = Some t" if "t \<in> insert ord held" for t
  proof (cases "t = ord")
    case True
    with assms(4) show ?thesis by simp
  next
    case False
    with that have t: "t \<in> held" by simp
    with assms(1) have mt: "m (order_id (buf t)) = Some t" by (simp add: index_ok_def)
    with assms(3) have "order_id (buf t) \<noteq> ident" by auto
    with mt False assms(5) show ?thesis by simp
  qed
  ultimately show ?thesis unfolding index_ok_def by blast
qed

lemma ladder_add_store:
  assumes lv: "\<forall>level \<in> set xs. level_ok buf c level"
    and fresh: "ord \<notin> set (slots xs)"
    and new: "order_side (buf' ord) = c" "order_qty (buf' ord) \<noteq> 0"
    and agree: "\<forall>t. t \<noteq> ord \<longrightarrow> buf' t = buf t"
  shows "(\<forall>level \<in> set (ladder_add R buf' xs ord). level_ok buf' c level)
         \<and> set (slots (ladder_add R buf' xs ord)) = insert ord (set (slots xs))
         \<and> length (slots (ladder_add R buf' xs ord)) = Suc (length (slots xs))
         \<and> distinct (slots (ladder_add R buf' xs ord)) = distinct (slots xs)"
proof -
  have old: "level_ok buf' c level" if "level \<in> set xs" for level
  proof -
    from that fresh in_slots [of level xs] have "\<forall>s \<in> set (orders level). s \<noteq> ord" by auto
    with agree have "\<forall>s \<in> set (orders level). buf' s = buf s" by simp
    from level_ok_cong [OF this] lv that show ?thesis by simp
  qed
  show ?thesis
  proof (cases rule: ladder_add_cases [of xs buf' ord R])
    case (join pre level post)
    from join(1) old have "level_ok buf' c level" by simp
    with join(2) new have "level_ok buf' c (PriceLevel_add_order buf' level ord)"
      by (auto simp: level_ok_def PriceLevel_add_order_def)
    with old join(1) have "\<forall>l \<in> set (ladder_add R buf' xs ord). level_ok buf' c l"
      unfolding join(3) by auto
    moreover have "slots (ladder_add R buf' xs ord) = slots pre @ orders level @ [ord] @ slots post"
      by (simp add: join(3) PriceLevel_add_order_def)
    moreover have "slots xs = slots pre @ orders level @ slots post"
      by (simp add: join(1))
    ultimately show ?thesis using fresh by auto
  next
    case (fresh pre post)
    from new have "level_ok buf' c (PriceLevel_add_order buf' (PriceLevel_new (order_price (buf' ord))) ord)"
      by (auto simp: level_ok_def PriceLevel_add_order_def PriceLevel_new_def)
    with old fresh(1) have "\<forall>l \<in> set (ladder_add R buf' xs ord). level_ok buf' c l"
      unfolding fresh(2) by auto
    moreover have "slots (ladder_add R buf' xs ord) = slots pre @ [ord] @ slots post"
      by (simp add: fresh(2) PriceLevel_add_order_def PriceLevel_new_def)
    moreover have "slots xs = slots pre @ slots post"
      by (simp add: fresh(1))
    ultimately show ?thesis using assms(2) by auto
  qed
qed

lemma store_inv_frame [simp]:
  "live (b\<lparr>pool := p\<rparr>) = live b" "live (b\<lparr>order_map := m\<rparr>) = live b"
  by (simp_all add: live_def)

lemma add_order_store:
  assumes inv: "store_inv Capacity b"
  shows "store_inv Capacity (fst (snd (add_order b ident limit qty side cb)))"
proof (cases "order_map b ident \<noteq> None")
  case True
  with inv show ?thesis by (simp add: add_order_def)
next
  case False
  then have fresh: "order_map b ident = None" by simp
  obtain b1 rem calls where
    phase: "(if side = Buy then match_buy b ident limit qty cb
             else match_sell b ident limit qty cb) = (b1, rem, calls)"
    by (metis prod_cases3)
  have inv1: "store_inv Capacity b1" and fresh1: "order_map b1 ident = None"
  proof -
    show "store_inv Capacity b1"
    proof (cases "side = Buy")
      case True
      with phase have "match_buy_loop b ident limit qty cb [] = (b1, rem, calls)"
        by (simp add: match_buy_def)
      from match_buy_loop_store [OF this inv] show ?thesis by simp
    next
      case False
      with phase have "match_sell_loop b ident limit qty cb [] = (b1, rem, calls)"
        by (simp add: match_sell_def)
      from match_sell_loop_store [OF this inv] show ?thesis by simp
    qed
    show "order_map b1 ident = None"
    proof (cases "side = Buy")
      case True
      with phase have "match_buy_loop b ident limit qty cb [] = (b1, rem, calls)"
        by (simp add: match_buy_def)
      from match_buy_loop_frame [OF this, of ident] fresh show ?thesis by simp
    next
      case False
      with phase have "match_sell_loop b ident limit qty cb [] = (b1, rem, calls)"
        by (simp add: match_sell_def)
      from match_sell_loop_frame [OF this, of ident] fresh show ?thesis by simp
    qed
  qed
  show ?thesis
  proof (cases "rem = 0")
    case True
    with False phase inv1 show ?thesis by (simp add: add_order_def)
  next
    case residual: False
    show ?thesis
    proof (cases "allocate (pool b1)")
      case (Pair slot p)
      show ?thesis
      proof (cases slot)
        case None
        with Pair have "p = pool b1"
          by (auto simp: allocate_def Let_def split: if_splits)
        with False phase residual Pair None inv1 show ?thesis
          by (simp add: add_order_def)
      next
        case (Some ord)
        let ?buf = "buffer (pool b1)"
        let ?new = "\<lparr>order_id = ident, order_price = limit, order_qty = rem,
                      order_side = side_char side\<rparr>"
        let ?buf' = "?buf(ord := ?new)"
        let ?p' = "p\<lparr>buffer := (buffer p)(ord := ?new)\<rparr>"
        let ?b2 = "b1\<lparr>pool := ?p'\<rparr>"
        from inv1 have pool1: "pool_ok Capacity (pool b1) (live b1)"
          and idx1: "index_ok (order_map b1) ?buf (set (live b1))"
          and bl: "\<forall>level \<in> set (bids b1). level_ok ?buf CHR ''B'' level"
          and al: "\<forall>level \<in> set (asks b1). level_ok ?buf CHR ''S'' level"
          by (simp_all add: store_inv_def)
        from pool_ok_acquire [OF pool1] Pair Some
        have acq: "pool_ok Capacity p (ord # live b1)" and out: "ord \<notin> set (live b1)"
          and bufp: "buffer p = ?buf"
          by simp_all
        have buf2: "buffer (pool ?b2) = ?buf'" by (simp add: bufp)
        have agree: "\<forall>t. t \<noteq> ord \<longrightarrow> ?buf' t = ?buf t" by simp
        from out have outb: "ord \<notin> set (slots (bids b1))" and outa: "ord \<notin> set (slots (asks b1))"
          by (simp_all add: live_def)
        have idx': "index_ok ((order_map b1)(ident \<mapsto> ord)) ?buf' (insert ord (set (live b1)))"
          by (rule index_ok_insert [OF idx1 out fresh1 _ agree]) simp
        have keep: "\<forall>level \<in> set xs. level_ok ?buf' c level"
          if "\<forall>level \<in> set xs. level_ok ?buf c level" and "ord \<notin> set (slots xs)" for xs c
        proof
          fix level assume m: "level \<in> set xs"
          with that(2) in_slots [of level xs] have "\<forall>s \<in> set (orders level). ?buf' s = ?buf s"
            by auto
          then have "level_ok ?buf' c level = level_ok ?buf c level"
            by (rule level_ok_cong)
          moreover from that(1) m have "level_ok ?buf c level" by blast
          ultimately show "level_ok ?buf' c level" by blast
        qed
        let ?final = "fst (snd (add_order b ident limit qty side cb))"
        show ?thesis
        proof (cases "side = Buy")
          case True
          let ?xs = "ladder_add (\<lambda>x y. x > y) ?buf' (bids b1) ord"
          from True False phase residual Pair Some have final:
            "?final = b1\<lparr>pool := ?p', bids := ?xs, order_map := (order_map b1)(ident \<mapsto> ord)\<rparr>"
            by (simp add: add_order_def Let_def add_to_bids_eq bufp)
          have new_side: "order_side (?buf' ord) = CHR ''B''" using True by simp
          have new_qty: "order_qty (?buf' ord) \<noteq> 0" using residual by simp
          from ladder_add_store [OF bl outb new_side new_qty agree, of "\<lambda>x y. x > y"]
          have l: "\<forall>level \<in> set ?xs. level_ok ?buf' CHR ''B'' level"
            and s: "set (slots ?xs) = insert ord (set (slots (bids b1)))"
            and n: "length (slots ?xs) = Suc (length (slots (bids b1)))"
            and d: "distinct (slots ?xs) = distinct (slots (bids b1))"
            by blast+
          have "pool_ok Capacity ?p' (slots ?xs @ slots (asks b1))"
            using acq pool_ok_perm [of "slots ?xs @ slots (asks b1)" "ord # live b1" Capacity p]
                  s n d out
            by (auto simp: live_def)
          moreover have "index_ok ((order_map b1)(ident \<mapsto> ord)) ?buf'
                           (set (slots ?xs @ slots (asks b1)))"
            using idx' s by (simp add: live_def)
          ultimately show ?thesis
            using l keep [OF al outa]
            by (simp add: final store_inv_def live_def bufp)
        next
          case sell: False
          then have sc: "side_char side = CHR ''S''" by (cases side) simp_all
          let ?xs = "ladder_add (\<lambda>x y. x < y) ?buf' (asks b1) ord"
          from sell False phase residual Pair Some have final:
            "?final = b1\<lparr>pool := ?p', asks := ?xs, order_map := (order_map b1)(ident \<mapsto> ord)\<rparr>"
            by (simp add: add_order_def Let_def add_to_asks_eq bufp)
          have new_side: "order_side (?buf' ord) = CHR ''S''" using sc by simp
          have new_qty: "order_qty (?buf' ord) \<noteq> 0" using residual by simp
          from ladder_add_store [OF al outa new_side new_qty agree, of "\<lambda>x y. x < y"]
          have l: "\<forall>level \<in> set ?xs. level_ok ?buf' CHR ''S'' level"
            and s: "set (slots ?xs) = insert ord (set (slots (asks b1)))"
            and n: "length (slots ?xs) = Suc (length (slots (asks b1)))"
            and d: "distinct (slots ?xs) = distinct (slots (asks b1))"
            by blast+
          have "pool_ok Capacity ?p' (slots (bids b1) @ slots ?xs)"
            using acq pool_ok_perm [of "slots (bids b1) @ slots ?xs" "ord # live b1" Capacity p]
                  s n d out
            by (auto simp: live_def)
          moreover have "index_ok ((order_map b1)(ident \<mapsto> ord)) ?buf'
                           (set (slots (bids b1) @ slots ?xs))"
            using idx' s by (simp add: live_def Un_commute)
          ultimately show ?thesis
            using l keep [OF bl outb]
            by (simp add: final store_inv_def live_def bufp)
        qed
      qed
    qed
  qed
qed


lemma strictly_sorted_distinct:
  "sorted_wrt R xs \<Longrightarrow> (\<And>x. \<not> R x x) \<Longrightarrow> distinct xs"
  by (induction xs) auto

lemma remove_from_levels_hit:
  assumes lv: "\<forall>level \<in> set xs. level_ok buf c level"
    and prices: "distinct (map price xs)"
    and held: "ord \<in> set (slots xs)"
  obtains pre level post where "xs = pre @ level # post" and "ord \<in> set (orders level)"
    and "remove_from_levels buf xs ord
           = pre @ (if PriceLevel_empty (PriceLevel_remove_order buf level ord) then []
                    else [PriceLevel_remove_order buf level ord]) @ post"
proof -
  from held obtain home where home: "home \<in> set xs" "ord \<in> set (orders home)"
    by (auto simp: slots_def)
  with lv have px: "price home = order_price (buf ord)"
    by (auto simp: level_ok_def)
  show ?thesis
  proof (cases rule: remove_from_levels_cases [of xs buf ord])
    case none
    with home px show ?thesis by auto
  next
    case (hit pre level post)
    from home(1) hit(1) have "home \<in> set pre \<or> home = level \<or> home \<in> set post" by auto
    moreover from hit(2) px have "home \<notin> set pre" by auto
    moreover have "home \<notin> set post"
    proof
      assume "home \<in> set post"
      then have "price home \<in> set (map price post)" by simp
      moreover from prices hit(1) have "price level \<notin> set (map price post)" by simp
      ultimately show False using px hit(3) by simp
    qed
    ultimately have "home = level" by blast
    with home(2) hit that show ?thesis by blast
  qed
qed

lemma remove_from_levels_store:
  assumes lv: "\<forall>level \<in> set xs. level_ok buf c level"
    and prices: "distinct (map price xs)"
    and held: "ord \<in> set (slots xs)"
    and d: "distinct (slots xs)"
  shows "(\<forall>level \<in> set (remove_from_levels buf xs ord). level_ok buf c level)
         \<and> set (slots (remove_from_levels buf xs ord)) = set (slots xs) - {ord}
         \<and> Suc (length (slots (remove_from_levels buf xs ord))) = length (slots xs)
         \<and> distinct (slots (remove_from_levels buf xs ord))"
proof -
  from lv prices held obtain pre level post where xs: "xs = pre @ level # post"
    and m: "ord \<in> set (orders level)"
    and r: "remove_from_levels buf xs ord
           = pre @ (if PriceLevel_empty (PriceLevel_remove_order buf level ord) then []
                    else [PriceLevel_remove_order buf level ord]) @ post"
    by (rule remove_from_levels_hit)
  let ?level' = "PriceLevel_remove_order buf level ord"
  have o: "orders ?level' = remove1 ord (orders level)" and p: "price ?level' = price level"
    by (simp_all add: PriceLevel_remove_order_def)
  have sl: "slots (remove_from_levels buf xs ord) = slots pre @ remove1 ord (orders level) @ slots post"
    unfolding r by (simp add: PriceLevel_empty_def o)
  have sx: "slots xs = slots pre @ orders level @ slots post"
    by (simp add: xs)
  from lv xs have "level_ok buf c level" by simp
  then have "level_ok buf c ?level'"
    by (auto simp: level_ok_def o p dest: notin_set_remove1)
  with lv xs have "\<forall>l \<in> set (remove_from_levels buf xs ord). level_ok buf c l"
    unfolding r by auto
  moreover from d m have "set (slots (remove_from_levels buf xs ord)) = set (slots xs) - {ord}"
    unfolding sl sx by (auto simp: set_remove1_eq)
  moreover from m have "Suc (length (slots (remove_from_levels buf xs ord))) = length (slots xs)"
    unfolding sl sx by (simp add: length_remove1) (cases "orders level"; simp)
  moreover from d have "distinct (slots (remove_from_levels buf xs ord))"
    unfolding sl sx by (auto dest: notin_set_remove1)
  ultimately show ?thesis by blast
qed

lemma cancel_order_store:
  assumes inv: "store_inv Capacity b" and shape: "ladders_ok b"
  shows "store_inv Capacity (snd (cancel_order b ident))"
proof (cases "order_map b ident")
  case None
  with inv show ?thesis by (simp add: cancel_order_def)
next
  case (Some ord)
  let ?buf = "buffer (pool b)"
  from inv have pool: "pool_ok Capacity (pool b) (live b)"
    and idx: "index_ok (order_map b) ?buf (set (live b))"
    and bl: "\<forall>level \<in> set (bids b). level_ok ?buf CHR ''B'' level"
    and al: "\<forall>level \<in> set (asks b). level_ok ?buf CHR ''S'' level"
    by (simp_all add: store_inv_def)
  from idx Some have held: "ord \<in> set (live b)" and ident: "order_id (?buf ord) = ident"
    by (auto simp: index_ok_def)
  from pool have d: "distinct (slots (bids b))" "distinct (slots (asks b))"
    "set (slots (bids b)) \<inter> set (slots (asks b)) = {}"
    by (auto simp: pool_ok_def live_def)
  from shape have pb: "distinct (map price (bids b))" and pa: "distinct (map price (asks b))"
    by (auto simp: ladders_ok_def intro: strictly_sorted_distinct)
  have side_b: "order_side (?buf ord) = CHR ''B''" if "ord \<in> set (slots (bids b))"
    using that bl by (auto simp: slots_def level_ok_def)
  have side_a: "order_side (?buf ord) = CHR ''S''" if "ord \<in> set (slots (asks b))"
    using that al by (auto simp: slots_def level_ok_def)
  let ?final = "snd (cancel_order b ident)"
  show ?thesis
  proof (cases "is_buy (?buf ord)")
    case True
    with side_a held have hb: "ord \<in> set (slots (bids b))"
      by (auto simp: live_def is_buy_def)
    let ?xs = "remove_from_levels ?buf (bids b) ord"
    from Some True have final:
      "?final = b\<lparr>order_map := (order_map b)(ident := None), bids := ?xs,
                   pool := deallocate (pool b) ord\<rparr>"
      by (simp add: cancel_order_def Let_def remove_from_bids_def)
    from remove_from_levels_store [OF bl pb hb d(1)]
    have l: "\<forall>level \<in> set ?xs. level_ok ?buf CHR ''B'' level"
      and s: "set (slots ?xs) = set (slots (bids b)) - {ord}"
      and n: "Suc (length (slots ?xs)) = length (slots (bids b))"
      and dx: "distinct (slots ?xs)"
      by blast+
    let ?held = "slots ?xs @ slots (asks b)"
    from s hb d have out: "ord \<notin> set ?held" and all: "insert ord (set ?held) = set (live b)"
      by (auto simp: live_def)
    from pool have "pool_ok Capacity (pool b) (ord # ?held)"
      using pool_ok_perm [of "ord # ?held" "live b" Capacity "pool b"] out all n dx d s
      by (auto simp: live_def pool_ok_def)
    then have "pool_ok Capacity (deallocate (pool b) ord) ?held"
      by (rule pool_ok_release)
    moreover have "index_ok ((order_map b)(order_id (?buf ord) := None)) ?buf (set ?held)"
      by (rule index_ok_release) (use idx out all in simp_all)
    ultimately show ?thesis
      using l al by (simp add: final store_inv_def live_def deallocate_def ident)
  next
    case False
    with side_b held have ha: "ord \<in> set (slots (asks b))"
      by (auto simp: live_def is_buy_def)
    let ?xs = "remove_from_levels ?buf (asks b) ord"
    from Some False have final:
      "?final = b\<lparr>order_map := (order_map b)(ident := None), asks := ?xs,
                   pool := deallocate (pool b) ord\<rparr>"
      by (simp add: cancel_order_def Let_def remove_from_asks_def)
    from remove_from_levels_store [OF al pa ha d(2)]
    have l: "\<forall>level \<in> set ?xs. level_ok ?buf CHR ''S'' level"
      and s: "set (slots ?xs) = set (slots (asks b)) - {ord}"
      and n: "Suc (length (slots ?xs)) = length (slots (asks b))"
      and dx: "distinct (slots ?xs)"
      by blast+
    let ?held = "slots (bids b) @ slots ?xs"
    from s ha d have out: "ord \<notin> set ?held" and all: "insert ord (set ?held) = set (live b)"
      by (auto simp: live_def)
    from pool have "pool_ok Capacity (pool b) (ord # ?held)"
      using pool_ok_perm [of "ord # ?held" "live b" Capacity "pool b"] out all n dx d s
      by (auto simp: live_def pool_ok_def)
    then have "pool_ok Capacity (deallocate (pool b) ord) ?held"
      by (rule pool_ok_release)
    moreover have "index_ok ((order_map b)(order_id (?buf ord) := None)) ?buf (set ?held)"
      by (rule index_ok_release) (use idx out all in simp_all)
    ultimately show ?thesis
      using l bl by (simp add: final store_inv_def live_def deallocate_def ident)
  qed
qed

lemma store_inv_init: "store_inv Capacity (OrderBook_init Capacity)"
proof -
  have "inj_on (\<lambda>i. Capacity - 1 - i) (set [0..<Capacity])"
    by (rule inj_onI) auto
  then have "distinct (map (\<lambda>i. Capacity - 1 - i) [0..<Capacity])"
    by (simp add: distinct_map)
  then show ?thesis
    by (simp add: store_inv_def OrderBook_init_def MemPool_init_def pool_ok_def index_ok_def
                  live_def free_slots_def)
qed

lemma run_store: "store_inv Capacity (run Capacity ops)"
proof (induction ops rule: rev_induct)
  case Nil
  show ?case by (simp add: run_def store_inv_init)
next
  case (snoc x ops)
  from run_shape [of Capacity ops] have "ladders_ok (run Capacity ops)" by simp
  with snoc show ?case
    by (cases x) (simp_all add: run_snoc add_order_store cancel_order_store)
qed

subsection \<open>Executions follow the price-time queue\<close>

text \<open>
  A resting order as a taker sees it: identifier, price of its level, remaining quantity.
  The queue of a level lists its orders front to back; the queue of a ladder lists its
  levels best price first.
\<close>

type_synonym maker = "u64 \<times> u64 \<times> u32"

definition level_queue :: "(nat \<Rightarrow> Order) \<Rightarrow> PriceLevel \<Rightarrow> maker list" where
  "level_queue buf level =
     map (\<lambda>s. (order_id (buf s), price level, order_qty (buf s))) (orders level)"

definition book_queue :: "(nat \<Rightarrow> Order) \<Rightarrow> PriceLevel list \<Rightarrow> maker list" where
  "book_queue buf ladder = concat (map (level_queue buf) ladder)"

text \<open>
  The executions the specification prescribes for a taker walking a queue of makers: one
  execution per maker reached, at the maker's price, for the smaller of the two quantities,
  until the taker is exhausted. This function is written from the specification; the
  lemmas below compare it with the loops of \<^verbatim>\<open>order_book.hpp\<close>.
\<close>

fun fills :: "u64 \<Rightarrow> Side \<Rightarrow> u32 \<Rightarrow> maker list \<Rightarrow> Execution list" where
  "fills taker mside remaining [] = []"
| "fills taker mside remaining ((ident, px, qty) # queue) =
     (if remaining = 0 then []
      else \<lparr>maker_id = ident, taker_id = taker, exec_price = px,
             exec_qty = min remaining qty, maker_side = mside\<rparr>
           # fills taker mside (remaining - min remaining qty) queue)"

fun left_after :: "u32 \<Rightarrow> maker list \<Rightarrow> u32" where
  "left_after remaining [] = remaining"
| "left_after remaining ((ident, px, qty) # queue) =
     (if remaining = 0 then 0 else left_after (remaining - min remaining qty) queue)"

lemma fills_zero [simp]: "fills taker mside 0 queue = []"
  by (cases queue) auto

lemma left_after_zero [simp]: "left_after 0 queue = 0"
  by (cases queue) auto

lemma fills_append:
  "fills taker mside r (xs @ ys)
   = fills taker mside r xs @ fills taker mside (left_after r xs) ys"
  by (induction xs arbitrary: r) auto

lemma left_after_append: "left_after r (xs @ ys) = left_after (left_after r xs) ys"
  by (induction xs arbitrary: r) auto

lemma level_queue_cong:
  "\<forall>s \<in> set (orders level). buf' s = buf s \<Longrightarrow> level_queue buf' level = level_queue buf level"
  by (simp add: level_queue_def)

lemma book_queue_cong:
  "\<forall>s \<in> set (slots ladder). buf' s = buf s \<Longrightarrow> book_queue buf' ladder = book_queue buf ladder"
  by (induction ladder) (auto simp: book_queue_def level_queue_def slots_def)

lemma book_queue_Nil [simp]: "book_queue buf [] = []"
  by (simp add: book_queue_def)

lemma book_queue_Cons [simp]:
  "book_queue buf (level # ladder) = level_queue buf level @ book_queue buf ladder"
  by (simp add: book_queue_def)

lemma match_at_level_fills:
  assumes "match_at_level b level taker remaining mside cb calls = res"
  shows "distinct (orders level)
     \<Longrightarrow> snd (snd (snd res))
           = calls @ (if cb then fills taker mside remaining (level_queue (buffer (pool b)) level)
                      else [])
         \<and> fst (snd (snd res)) = left_after remaining (level_queue (buffer (pool b)) level)"
  using assms
proof (induction rule: match_at_level_induct)
  case (stop b level remaining calls)
  then show ?case
    by (cases "orders level") (auto simp: level_queue_def word_greater_zero_iff)
next
  case (iterate b level remaining calls b1 l1 r1 c1 res)
  let ?buf = "buffer (pool b)"
  from iterate(2) obtain s rest where lv: "orders level = s # rest"
    by (cases "orders level") auto
  with iterate(6) have fresh: "s \<notin> set rest" and d: "distinct rest" by auto
  from iterate(1) have nz: "remaining \<noteq> 0" by auto
  show ?case
  proof (cases "order_qty (?buf s) \<le> remaining")
    case True
    from iterate(3) match_fill_filled [OF lv True, of taker mside cb calls] have
      b1: "buffer (pool b1) = ?buf(s := (?buf s)\<lparr>order_qty := 0\<rparr>)"
      and l1: "orders l1 = rest" "price l1 = price level"
      and r1: "r1 = remaining - order_qty (?buf s)"
      and c1: "c1 = (if cb then calls @ [\<lparr>maker_id = order_id (?buf s), taker_id = taker,
                           exec_price = price level,
                           exec_qty = order_qty (?buf s), maker_side = mside\<rparr>] else calls)"
      by (auto simp: deallocate_def reduce_volume_def)
    from fresh have q: "level_queue ?buf level
        = (order_id (?buf s), price level, order_qty (?buf s)) # level_queue (buffer (pool b1)) l1"
      by (auto simp: level_queue_def b1 l1 lv)
    from d l1 have "distinct (orders l1)" by simp
    from iterate(5) [OF this] True nz show ?thesis
      by (simp add: q c1 r1 min_absorb2)
  next
    case False
    then have lt: "remaining < order_qty (?buf s)" by simp
    from iterate(3) match_fill_partial [OF lv lt, of taker mside cb calls] have
      r1: "r1 = 0"
      and l1: "orders l1 = orders level"
      and c1: "c1 = (if cb then calls @ [\<lparr>maker_id = order_id (?buf s), taker_id = taker,
                           exec_price = price level,
                           exec_qty = remaining, maker_side = mside\<rparr>] else calls)"
      by (auto simp: reduce_volume_def)
    have q: "level_queue ?buf level
        = (order_id (?buf s), price level, order_qty (?buf s)) # level_queue ?buf (level\<lparr>orders := rest\<rparr>)"
      by (simp add: level_queue_def lv)
    from iterate(6) l1 have "distinct (orders l1)" by simp
    from iterate(5) [OF this] lt nz show ?thesis
      by (simp add: c1 r1 q min_absorb1)
  qed
qed




lemma match_buy_loop_fills:
  assumes "match_buy_loop b taker limit remaining cb calls = res"
  shows "store_inv Capacity b
     \<Longrightarrow> snd (snd res)
           = calls @ (if cb then fills taker Sell remaining
                          (book_queue (buffer (pool b))
                             (takeWhile (\<lambda>level. \<not> limit < price level) (asks b)))
                      else [])"
  using assms
proof (induction rule: match_buy_loop_induct)
  case (stop b remaining calls)
  show ?case
  proof (cases "remaining = 0 \<or> asks b = []")
    case True
    then show ?thesis by auto
  next
    case False
    with stop(1) have "limit < price (hd (asks b))"
      by (auto simp: word_greater_zero_iff)
    with False have "takeWhile (\<lambda>level. \<not> limit < price level) (asks b) = []"
      by (cases "asks b") auto
    then show ?thesis by simp
  qed
next
  case (sweep b remaining calls b1 l1 r1 c1 res)
  let ?buf = "buffer (pool b)"
  let ?P = "\<lambda>level. \<not> limit < price level"
  from sweep(2) obtain l ls where ladder: "asks b = l # ls"
    by (cases "asks b") auto
  with sweep(4) have run: "match_at_level b l taker remaining Sell cb calls = (b1, l1, r1, c1)"
    by simp
  from sweep(3) ladder have cross: "?P l" by simp
  from match_buy_sweep_store [OF sweep(7) ladder run]
  have inv2: "store_inv Capacity (b1\<lparr>asks := (if orders l1 = [] then ls else l1 # ls)\<rparr>)"
    and fr: "\<forall>t \<in> set (slots ls). buffer (pool b1) t = ?buf t"
    and d: "distinct (orders l)"
    by auto
  from match_at_level_fills [OF run d]
  have c1: "c1 = calls @ (if cb then fills taker Sell remaining (level_queue ?buf l) else [])"
    and r1: "r1 = left_after remaining (level_queue ?buf l)"
    by simp_all
  from sweep(6) [unfolded ladder list.sel, OF inv2]
  have ih: "snd (snd res) = c1 @ (if cb then fills taker Sell r1
                (book_queue (buffer (pool b1))
                   (takeWhile ?P (if orders l1 = [] then ls else l1 # ls))) else [])"
    by simp
  have q: "book_queue ?buf (takeWhile ?P (asks b))
           = level_queue ?buf l @ book_queue ?buf (takeWhile ?P ls)"
    using cross by (simp add: ladder)
  have tail: "fills taker Sell r1 (book_queue (buffer (pool b1))
                   (takeWhile ?P (if orders l1 = [] then ls else l1 # ls)))
              = fills taker Sell r1 (book_queue ?buf (takeWhile ?P ls))"
  proof (cases "orders l1 = []")
    case True
    have "set (slots (takeWhile ?P ls)) \<subseteq> set (slots ls)"
      by (auto simp: slots_def dest: set_takeWhileD)
    with fr have "\<forall>s \<in> set (slots (takeWhile ?P ls)). buffer (pool b1) s = ?buf s"
      by blast
    from book_queue_cong [OF this] True show ?thesis by simp
  next
    case False
    with match_at_level_exit [OF run] have "r1 = 0" by simp
    then show ?thesis by simp
  qed
  have "snd (snd res) = c1 @ (if cb then fills taker Sell r1
                (book_queue ?buf (takeWhile ?P ls)) else [])"
    by (simp only: ih tail)
  also have "\<dots> = calls @ (if cb then fills taker Sell remaining
                (level_queue ?buf l @ book_queue ?buf (takeWhile ?P ls)) else [])"
    by (simp add: c1 r1 fills_append)
  finally show ?case by (simp only: q)
qed

lemma match_sell_loop_fills:
  assumes "match_sell_loop b taker limit remaining cb calls = res"
  shows "store_inv Capacity b
     \<Longrightarrow> snd (snd res)
           = calls @ (if cb then fills taker Buy remaining
                          (book_queue (buffer (pool b))
                             (takeWhile (\<lambda>level. \<not> limit > price level) (bids b)))
                      else [])"
  using assms
proof (induction rule: match_sell_loop_induct)
  case (stop b remaining calls)
  show ?case
  proof (cases "remaining = 0 \<or> bids b = []")
    case True
    then show ?thesis by auto
  next
    case False
    with stop(1) have "limit > price (hd (bids b))"
      by (auto simp: word_greater_zero_iff)
    with False have "takeWhile (\<lambda>level. \<not> limit > price level) (bids b) = []"
      by (cases "bids b") auto
    then show ?thesis by simp
  qed
next
  case (sweep b remaining calls b1 l1 r1 c1 res)
  let ?buf = "buffer (pool b)"
  let ?P = "\<lambda>level. \<not> limit > price level"
  from sweep(2) obtain l ls where ladder: "bids b = l # ls"
    by (cases "bids b") auto
  with sweep(4) have run: "match_at_level b l taker remaining Buy cb calls = (b1, l1, r1, c1)"
    by simp
  from sweep(3) ladder have cross: "?P l" by simp
  from match_sell_sweep_store [OF sweep(7) ladder run]
  have inv2: "store_inv Capacity (b1\<lparr>bids := (if orders l1 = [] then ls else l1 # ls)\<rparr>)"
    and fr: "\<forall>t \<in> set (slots ls). buffer (pool b1) t = ?buf t"
    and d: "distinct (orders l)"
    by auto
  from match_at_level_fills [OF run d]
  have c1: "c1 = calls @ (if cb then fills taker Buy remaining (level_queue ?buf l) else [])"
    and r1: "r1 = left_after remaining (level_queue ?buf l)"
    by simp_all
  from sweep(6) [unfolded ladder list.sel, OF inv2]
  have ih: "snd (snd res) = c1 @ (if cb then fills taker Buy r1
                (book_queue (buffer (pool b1))
                   (takeWhile ?P (if orders l1 = [] then ls else l1 # ls))) else [])"
    by simp
  have q: "book_queue ?buf (takeWhile ?P (bids b))
           = level_queue ?buf l @ book_queue ?buf (takeWhile ?P ls)"
    using cross by (simp add: ladder)
  have tail: "fills taker Buy r1 (book_queue (buffer (pool b1))
                   (takeWhile ?P (if orders l1 = [] then ls else l1 # ls)))
              = fills taker Buy r1 (book_queue ?buf (takeWhile ?P ls))"
  proof (cases "orders l1 = []")
    case True
    have "set (slots (takeWhile ?P ls)) \<subseteq> set (slots ls)"
      by (auto simp: slots_def dest: set_takeWhileD)
    with fr have "\<forall>s \<in> set (slots (takeWhile ?P ls)). buffer (pool b1) s = ?buf s"
      by blast
    from book_queue_cong [OF this] True show ?thesis by simp
  next
    case False
    with match_at_level_exit [OF run] have "r1 = 0" by simp
    then show ?thesis by simp
  qed
  have "snd (snd res) = c1 @ (if cb then fills taker Buy r1
                (book_queue ?buf (takeWhile ?P ls)) else [])"
    by (simp only: ih tail)
  also have "\<dots> = calls @ (if cb then fills taker Buy remaining
                (level_queue ?buf l @ book_queue ?buf (takeWhile ?P ls)) else [])"
    by (simp add: c1 r1 fills_append)
  finally show ?case by (simp only: q)
qed


text \<open>
  The makers an incoming order can trade with: the queue of the levels of the opposite
  ladder whose price the limit reaches, best price first.
\<close>

definition crossing_makers :: "OrderBook \<Rightarrow> Side \<Rightarrow> u64 \<Rightarrow> maker list" where
  "crossing_makers b side limit =
     (if side = Buy
      then book_queue (buffer (pool b)) (takeWhile (\<lambda>level. \<not> limit < price level) (asks b))
      else book_queue (buffer (pool b)) (takeWhile (\<lambda>level. \<not> limit > price level) (bids b)))"

definition opposite :: "Side \<Rightarrow> Side" where
  "opposite side = (if side = Buy then Sell else Buy)"

lemma add_order_calls:
  assumes "store_inv Capacity b"
  shows "snd (snd (add_order b ident limit qty side cb))
         = (if order_map b ident = None \<and> cb
            then fills ident (opposite side) qty (crossing_makers b side limit) else [])"
proof (cases "order_map b ident = None")
  case False
  then show ?thesis by (auto simp: add_order_def)
next
  case True
  obtain b1 rem calls where
    phase: "(if side = Buy then match_buy b ident limit qty cb
             else match_sell b ident limit qty cb) = (b1, rem, calls)"
    by (metis prod_cases3)
  have "calls = (if cb then fills ident (opposite side) qty (crossing_makers b side limit) else [])"
  proof (cases "side = Buy")
    case True
    with phase have "match_buy_loop b ident limit qty cb [] = (b1, rem, calls)"
      by (simp add: match_buy_def)
    from match_buy_loop_fills [OF this assms] True show ?thesis
      by (simp add: crossing_makers_def opposite_def)
  next
    case False
    with phase have "match_sell_loop b ident limit qty cb [] = (b1, rem, calls)"
      by (simp add: match_sell_def)
    from match_sell_loop_fills [OF this assms] False show ?thesis
      by (simp add: crossing_makers_def opposite_def)
  qed
  moreover have "snd (snd (add_order b ident limit qty side cb)) = calls"
    using True phase
    by (auto simp: add_order_def Let_def split: prod.splits option.splits)
  ultimately show ?thesis using True by simp
qed

lemma fills_sources:
  "e \<in> set (fills taker mside r queue)
   \<Longrightarrow> \<exists>m \<in> set queue. maker_id e = fst m \<and> exec_price e = fst (snd m)
         \<and> taker_id e = taker \<and> maker_side e = mside"
proof (induction queue arbitrary: r)
  case Nil
  then show ?case by simp
next
  case (Cons m queue)
  obtain ident px qty where m: "m = (ident, px, qty)" by (cases m) auto
  from Cons.prems have r: "r \<noteq> 0" by (auto simp: m split: if_splits)
  from Cons.prems r
  consider "e = \<lparr>maker_id = ident, taker_id = taker, exec_price = px,
                  exec_qty = min r qty, maker_side = mside\<rparr>"
    | "e \<in> set (fills taker mside (r - min r qty) queue)"
    by (auto simp: m)
  then show ?case
  proof cases
    case 1
    then show ?thesis by (simp add: m)
  next
    case 2
    from Cons.IH [OF this] show ?thesis by auto
  qed
qed

lemma length_fills: "length (fills taker mside r queue) \<le> length queue"
  by (induction queue arbitrary: r) (auto simp: le_SucI)

lemma fills_makers:
  "map maker_id (fills taker mside r queue)
   = take (length (fills taker mside r queue)) (map fst queue)"
  by (induction queue arbitrary: r) auto

lemma fills_prices:
  "map exec_price (fills taker mside r queue)
   = take (length (fills taker mside r queue)) (map (\<lambda>m. fst (snd m)) queue)"
  by (induction queue arbitrary: r) auto

lemma fills_complete:
  "Suc i < length (fills taker mside r queue)
   \<Longrightarrow> exec_qty (fills taker mside r queue ! i) = snd (snd (queue ! i))"
proof (induction queue arbitrary: r i)
  case Nil
  then show ?case by simp
next
  case (Cons m queue)
  obtain ident px qty where m: "m = (ident, px, qty)" by (cases m) auto
  from Cons.prems have r: "r \<noteq> 0" by (auto simp: m split: if_splits)
  show ?case
  proof (cases i)
    case 0
    with Cons.prems r have "fills taker mside (r - min r qty) queue \<noteq> []"
      by (auto simp: m)
    then have "r - min r qty \<noteq> 0" by (cases queue) (auto split: if_splits)
    then have "min r qty = qty" by (auto simp: min_def split: if_splits)
    with 0 r show ?thesis by (simp add: m)
  next
    case (Suc j)
    with Cons.prems r have "Suc j < length (fills taker mside (r - min r qty) queue)"
      by (simp add: m)
    from Cons.IH [OF this] Suc r show ?thesis by (simp add: m)
  qed
qed


lemma crossing_makers_sources:
  assumes "m \<in> set (crossing_makers b side limit)"
  shows "\<exists>level \<in> set (if side = Buy then asks b else bids b). \<exists>s \<in> set (orders level).
           m = (order_id (buffer (pool b) s), price level, order_qty (buffer (pool b) s))
           \<and> (if side = Buy then price level \<le> limit else limit \<le> price level)"
proof (cases "side = Buy")
  case True
  with assms obtain level s where
    l: "level \<in> set (takeWhile (\<lambda>level. \<not> limit < price level) (asks b))"
    and s: "s \<in> set (orders level)"
    and m: "m = (order_id (buffer (pool b) s), price level, order_qty (buffer (pool b) s))"
    by (auto simp: crossing_makers_def book_queue_def level_queue_def)
  from set_takeWhileD [OF l] have "level \<in> set (asks b)" "price level \<le> limit"
    by auto
  with s m True show ?thesis by (intro bexI [of _ level] bexI [of _ s]) auto
next
  case False
  with assms obtain level s where
    l: "level \<in> set (takeWhile (\<lambda>level. \<not> limit > price level) (bids b))"
    and s: "s \<in> set (orders level)"
    and m: "m = (order_id (buffer (pool b) s), price level, order_qty (buffer (pool b) s))"
    by (auto simp: crossing_makers_def book_queue_def level_queue_def)
  from set_takeWhileD [OF l] have "level \<in> set (bids b)" "limit \<le> price level"
    by auto
  with s m False show ?thesis by (intro bexI [of _ level] bexI [of _ s]) auto
qed

lemma add_order_execution:
  assumes inv: "store_inv Capacity b"
    and e: "e \<in> set (snd (snd (add_order b ident limit qty side cb)))"
  shows "\<exists>slot. order_map b (maker_id e) = Some slot
           \<and> exec_price e = order_price (buffer (pool b) slot)
           \<and> order_side (buffer (pool b) slot) = side_char (opposite side)
           \<and> maker_side e = opposite side
           \<and> taker_id e = ident
           \<and> (if side = Buy then exec_price e \<le> limit else limit \<le> exec_price e)"
proof -
  from e have "e \<in> set (fills ident (opposite side) qty (crossing_makers b side limit))"
    unfolding add_order_calls [OF inv] by (simp split: if_splits)
  from fills_sources [OF this] obtain m where
    m: "m \<in> set (crossing_makers b side limit)"
    and f: "maker_id e = fst m" "exec_price e = fst (snd m)" "taker_id e = ident"
           "maker_side e = opposite side"
    by blast
  from crossing_makers_sources [OF m] obtain level s where
    level: "level \<in> set (if side = Buy then asks b else bids b)"
    and s: "s \<in> set (orders level)"
    and ms: "m = (order_id (buffer (pool b) s), price level, order_qty (buffer (pool b) s))"
    and lim: "if side = Buy then price level \<le> limit else limit \<le> price level"
    by blast
  from level s have held: "s \<in> set (live b)"
    by (auto simp: live_def slots_def split: if_splits)
  from inv level have "level_ok (buffer (pool b)) (side_char (opposite side)) level"
    by (auto simp: store_inv_def opposite_def split: if_splits)
  with s have px: "order_price (buffer (pool b) s) = price level"
    and sd: "order_side (buffer (pool b) s) = side_char (opposite side)"
    by (auto simp: level_ok_def)
  from inv held have "order_map b (order_id (buffer (pool b) s)) = Some s"
    by (auto simp: store_inv_def index_ok_def)
  with f ms px sd lim show ?thesis by (auto split: if_splits)
qed

text \<open>
  C1. In every book reached from the empty book by \<^verbatim>\<open>add_order\<close> and
  \<^verbatim>\<open>cancel_order\<close> calls, every execution reported by a further \<^verbatim>\<open>add_order\<close> names
  a maker that the order map of the book resolves to a resting order of the opposite side,
  and carries that order's own price. The taker's limit only bounds it: a buyer never pays
  more than its limit, a seller never receives less.
\<close>

theorem execution_price_is_maker_price:
  assumes "e \<in> set (snd (snd (add_order (run Capacity ops) ident limit qty side cb)))"
  shows "\<exists>slot. order_map (run Capacity ops) (maker_id e) = Some slot
           \<and> exec_price e = order_price (buffer (pool (run Capacity ops)) slot)
           \<and> order_side (buffer (pool (run Capacity ops)) slot) = side_char (opposite side)
           \<and> maker_side e = opposite side
           \<and> taker_id e = ident
           \<and> (if side = Buy then exec_price e \<le> limit else limit \<le> exec_price e)"
  using add_order_execution [OF run_store assms] .

text \<open>
  Scenario 4 of the specification, a market sweep: bids at 1000000 and 990000, and a seller
  with limit 980000 for 150. The second execution is at 990000, the price of order 2.
\<close>

theorem execution_price_is_maker_price_witness:
  "\<lparr>maker_id = 2, taker_id = 3, exec_price = 990000, exec_qty = 50, maker_side = Buy\<rparr>
     \<in> set (snd (snd (add_order
           (run 8 [AddOrder 1 1000000 100 Buy True, AddOrder 2 990000 100 Buy True])
           3 980000 150 Sell True)))
   \<and> order_map (run 8 [AddOrder 1 1000000 100 Buy True, AddOrder 2 990000 100 Buy True]) 2
       = Some 1
   \<and> order_price (buffer (pool
        (run 8 [AddOrder 1 1000000 100 Buy True, AddOrder 2 990000 100 Buy True])) 1) = 990000"
proof -
  let ?b = "run 8 [AddOrder 1 1000000 100 Buy True, AddOrder 2 990000 100 Buy True]"
  let ?e = "\<lparr>maker_id = 2, taker_id = 3, exec_price = 990000, exec_qty = 50, maker_side = Buy\<rparr>"
  have calls: "snd (snd (add_order ?b 3 980000 150 Sell True))
     = [\<lparr>maker_id = 1, taker_id = 3, exec_price = 1000000, exec_qty = 100, maker_side = Buy\<rparr>,
        ?e]"
    by code_simp
  then have e: "?e \<in> set (snd (snd (add_order ?b 3 980000 150 Sell True)))"
    by simp
  have slot: "order_map ?b 2 = Some 1"
    by code_simp
  from execution_price_is_maker_price [OF e] slot e show ?thesis
    by simp
qed

subsection \<open>Price priority and time priority\<close>

text \<open>
  The queue a taker walks is ordered by price, best first, because the ladder it is read
  from is strictly sorted; within a level it is the order of the level's list.
\<close>

lemma sorted_wrt_replicate:
  "(\<And>x. R x x) \<Longrightarrow> sorted_wrt R (replicate n x)"
  by (induction n) auto

lemma level_queue_prices:
  "map (\<lambda>m. fst (snd m)) (level_queue buf level) = replicate (length (orders level)) (price level)"
  by (simp add: level_queue_def map_replicate_const o_def)

lemma book_queue_price_set:
  "m \<in> set (book_queue buf ladder) \<Longrightarrow> fst (snd m) \<in> price ` set ladder"
  by (auto simp: book_queue_def level_queue_def)

lemma book_queue_prices:
  assumes refl: "\<And>x. R' x x" and weak: "\<And>x y. R x y \<Longrightarrow> R' x y"
  shows "sorted_wrt R (map price ladder)
         \<Longrightarrow> sorted_wrt R' (map (\<lambda>m. fst (snd m)) (book_queue buf ladder))"
proof (induction ladder)
  case Nil
  show ?case by simp
next
  case (Cons l ls)
  from Cons.prems have above: "\<forall>y \<in> price ` set ls. R (price l) y" and "sorted_wrt R (map price ls)"
    by auto
  from Cons.IH [OF this(2)] have tail: "sorted_wrt R' (map (\<lambda>m. fst (snd m)) (book_queue buf ls))" .
  have head: "sorted_wrt R' (map (\<lambda>m. fst (snd m)) (level_queue buf l))"
    unfolding level_queue_prices by (rule sorted_wrt_replicate) (rule refl)
  have cross: "R' x y" if "x \<in> set (map (\<lambda>m. fst (snd m)) (level_queue buf l))"
    and "y \<in> set (map (\<lambda>m. fst (snd m)) (book_queue buf ls))" for x y
  proof -
    from that(1) have "x = price l" unfolding level_queue_prices by simp
    moreover from that(2) book_queue_price_set [of _ buf ls] have "y \<in> price ` set ls" by auto
    ultimately show ?thesis using above weak by blast
  qed
  show ?case
    unfolding book_queue_Cons map_append sorted_wrt_append using head tail cross by blast
qed

lemma sorted_wrt_map_takeWhile:
  "sorted_wrt R (map f xs) \<Longrightarrow> sorted_wrt R (map f (takeWhile P xs))"
  by (induction xs) (auto dest: set_takeWhileD)

lemma crossing_makers_prices:
  assumes "ladders_ok b"
  shows "sorted_wrt (if side = Buy then (\<le>) else (\<ge>))
           (map (\<lambda>m. fst (snd m)) (crossing_makers b side limit))"
proof (cases "side = Buy")
  case True
  from assms have "sorted_wrt (<) (map price (asks b))" by (simp add: ladders_ok_def)
  then have "sorted_wrt (<) (map price (takeWhile (\<lambda>level. \<not> limit < price level) (asks b)))"
    by (rule sorted_wrt_map_takeWhile)
  then have "sorted_wrt (\<le>) (map (\<lambda>m. fst (snd m))
      (book_queue (buffer (pool b)) (takeWhile (\<lambda>level. \<not> limit < price level) (asks b))))"
    by (rule book_queue_prices [where R = "(<)" and R' = "(\<le>)", rotated 2]) simp_all
  with True show ?thesis by (simp add: crossing_makers_def)
next
  case False
  from assms have "sorted_wrt (>) (map price (bids b))" by (simp add: ladders_ok_def)
  then have "sorted_wrt (>) (map price (takeWhile (\<lambda>level. \<not> limit > price level) (bids b)))"
    by (rule sorted_wrt_map_takeWhile)
  then have "sorted_wrt (\<ge>) (map (\<lambda>m. fst (snd m))
      (book_queue (buffer (pool b)) (takeWhile (\<lambda>level. \<not> limit > price level) (bids b))))"
    by (rule book_queue_prices [where R = "(>)" and R' = "(\<ge>)", rotated 2]) simp_all
  with False show ?thesis by (simp add: crossing_makers_def)
qed

text \<open>
  No resting order occurs twice in the queue: the slots of a ladder are distinct and the
  order map sends each identifier to one slot.
\<close>

lemma book_queue_ids:
  "map fst (book_queue buf ladder) = map (\<lambda>s. order_id (buf s)) (slots ladder)"
  by (induction ladder) (auto simp: level_queue_def slots_def)

lemma slots_takeWhile:
  "distinct (slots ladder) \<Longrightarrow> distinct (slots (takeWhile P ladder))"
  "set (slots (takeWhile P ladder)) \<subseteq> set (slots ladder)"
  by (induction ladder) (auto simp: slots_def dest: set_takeWhileD)

lemma crossing_makers_distinct:
  assumes "store_inv Capacity b"
  shows "distinct (map fst (crossing_makers b side limit))"
proof -
  from assms have d: "distinct (slots (bids b))" "distinct (slots (asks b))"
    by (auto simp: store_inv_def pool_ok_def live_def)
  from assms have idx: "\<forall>s \<in> set (live b). order_map b (order_id (buffer (pool b) s)) = Some s"
    unfolding store_inv_def index_ok_def by blast
  have inj: "inj_on (\<lambda>s. order_id (buffer (pool b) s)) (set (live b))"
  proof (rule inj_onI)
    fix s t assume s: "s \<in> set (live b)" and t: "t \<in> set (live b)"
      and eq: "order_id (buffer (pool b) s) = order_id (buffer (pool b) t)"
    from idx s have "order_map b (order_id (buffer (pool b) s)) = Some s" by blast
    moreover from idx t have "order_map b (order_id (buffer (pool b) t)) = Some t" by blast
    ultimately show "s = t" unfolding eq by simp
  qed
  have part: "distinct (map (\<lambda>s. order_id (buffer (pool b) s)) (slots (takeWhile P ladder)))"
    if sub: "set (slots ladder) \<subseteq> set (live b)" and dl: "distinct (slots ladder)" for P ladder
  proof -
    from dl have "distinct (slots (takeWhile P ladder))"
      by (rule slots_takeWhile(1))
    moreover from sub slots_takeWhile(2) [of P ladder]
    have "set (slots (takeWhile P ladder)) \<subseteq> set (live b)"
      by (rule order.trans [rotated])
    from inj_on_subset [OF inj this]
    have "inj_on (\<lambda>s. order_id (buffer (pool b) s)) (set (slots (takeWhile P ladder)))" .
    ultimately show ?thesis
      by (simp only: distinct_map simp_thms)
  qed
  show ?thesis
  proof (cases "side = Buy")
    case True
    have "set (slots (asks b)) \<subseteq> set (live b)" by (simp add: live_def)
    from part [OF this d(2)] True show ?thesis
      by (simp add: crossing_makers_def book_queue_ids)
  next
    case False
    have "set (slots (bids b)) \<subseteq> set (live b)" by (simp add: live_def)
    from part [OF this d(1)] False show ?thesis
      by (simp add: crossing_makers_def book_queue_ids)
  qed
qed


text \<open>
  Orders added at one price, none of them crossing. \<^verbatim>\<open>PriceLevel::add_order\<close> pushes at
  the back of the level's list, so the queue of the level is the list of the adds in the
  order of the calls.
\<close>

definition own_ladder :: "OrderBook \<Rightarrow> Side \<Rightarrow> PriceLevel list" where
  "own_ladder b side = (if side = Buy then bids b else asks b)"

lemma ladder_add_empty:
  "ladder_add R buf [] ord
   = [PriceLevel_add_order buf (PriceLevel_new (order_price (buf ord))) ord]"
  by (simp add: ladder_add_def lower_bound_def vector_insert_def)

lemma ladder_add_single:
  "\<not> R (price level) (price level) \<Longrightarrow> order_price (buf ord) = price level
   \<Longrightarrow> ladder_add R buf [level] ord = [PriceLevel_add_order buf level ord]"
  by (simp add: ladder_add_def lower_bound_def)

lemma ladder_add_one_price:
  assumes irrefl: "\<And>x. \<not> R x x"
    and one: "xs = [] \<or> (\<exists>level. xs = [level] \<and> price level = px)"
    and new: "buf' = buf(ord := \<lparr>order_id = ident, order_price = px, order_qty = qty,
                                  order_side = c\<rparr>)"
    and fresh: "ord \<notin> set (slots xs)"
  shows "(\<exists>level. ladder_add R buf' xs ord = [level] \<and> price level = px)
         \<and> book_queue buf' (ladder_add R buf' xs ord) = book_queue buf xs @ [(ident, px, qty)]"
proof (cases xs)
  case Nil
  then show ?thesis
    by (simp add: ladder_add_empty new PriceLevel_add_order_def PriceLevel_new_def
                  level_queue_def)
next
  case (Cons level rest)
  with one have xs: "xs = [level]" and px: "price level = px" by auto
  from fresh xs have "\<forall>s \<in> set (orders level). buf' s = buf s"
    by (auto simp: new)
  from level_queue_cong [OF this] have old: "level_queue buf' level = level_queue buf level" .
  have "ladder_add R buf' [level] ord = [PriceLevel_add_order buf' level ord]"
    by (rule ladder_add_single) (simp_all add: irrefl px new)
  moreover have "level_queue buf' (PriceLevel_add_order buf' level ord)
                 = level_queue buf' level @ [(ident, px, qty)]"
    by (simp add: level_queue_def PriceLevel_add_order_def new px)
  ultimately show ?thesis
    by (simp add: xs old PriceLevel_add_order_def px)
qed


lemma add_order_rests_behind:
  assumes inv: "store_inv Capacity b"
    and opp: "own_ladder b (opposite side) = []"
    and one: "own_ladder b side = [] \<or> (\<exists>level. own_ladder b side = [level] \<and> price level = px)"
    and room: "length (book_queue (buffer (pool b)) (own_ladder b side)) < Capacity"
    and fresh: "ident \<notin> fst ` set (book_queue (buffer (pool b)) (own_ladder b side))"
    and qty: "qty \<noteq> 0"
  shows "\<exists>b'. add_order b ident px qty side cb = (True, b', [])
           \<and> own_ladder b' (opposite side) = []
           \<and> (\<exists>level. own_ladder b' side = [level] \<and> price level = px)
           \<and> book_queue (buffer (pool b')) (own_ladder b' side)
               = book_queue (buffer (pool b)) (own_ladder b side) @ [(ident, px, qty)]"
proof -
  let ?buf = "buffer (pool b)"
  let ?own = "own_ladder b side"
  from opp have live: "live b = slots ?own"
    by (cases side) (simp_all add: own_ladder_def opposite_def live_def)
  have ids: "map fst (book_queue ?buf ?own) = map (\<lambda>s. order_id (?buf s)) (slots ?own)"
    by (rule book_queue_ids)
  have unmapped: "order_map b ident = None"
  proof (rule ccontr)
    assume "order_map b ident \<noteq> None"
    then obtain s where "order_map b ident = Some s" by auto
    with inv have "s \<in> set (live b)" "order_id (?buf s) = ident"
      by (auto simp: store_inv_def index_ok_def)
    then have "ident \<in> set (map (\<lambda>s. order_id (?buf s)) (slots ?own))"
      unfolding live by force
    then have "ident \<in> set (map fst (book_queue ?buf ?own))"
      unfolding ids .
    with fresh show False by simp
  qed
  from ids have "length (book_queue ?buf ?own) = length (slots ?own)"
    by (metis length_map)
  with room inv have "free_count (pool b) \<noteq> 0"
    by (auto simp: store_inv_def pool_ok_def live)
  then obtain ord p where alloc: "allocate (pool b) = (Some ord, p)"
    by (simp add: allocate_def Let_def)
  from inv have "pool_ok Capacity (pool b) (live b)" by (simp add: store_inv_def)
  from pool_ok_acquire [OF this alloc] have ord: "ord \<notin> set (slots ?own)"
    and buf: "buffer p = ?buf"
    by (simp_all add: live)
  define buf' where "buf' = ?buf(ord := \<lparr>order_id = ident, order_price = px, order_qty = qty,
                                         order_side = side_char side\<rparr>)"
  have phase: "(if side = Buy then match_buy b ident px qty cb
                else match_sell b ident px qty cb) = (b, qty, [])"
    using opp
    by (cases side)
       (simp_all add: own_ladder_def opposite_def match_buy_def match_sell_def
                      match_buy_loop_done match_sell_loop_done)
  show ?thesis
  proof (cases side)
    case Buy
    from one ord Buy
    have "(\<exists>level. ladder_add (\<lambda>x y. x > y) buf' (bids b) ord = [level] \<and> price level = px)
          \<and> book_queue buf' (ladder_add (\<lambda>x y. x > y) buf' (bids b) ord)
              = book_queue ?buf (bids b) @ [(ident, px, qty)]"
      by (intro ladder_add_one_price [where c = "side_char side"])
         (simp_all add: own_ladder_def buf'_def)
    with unmapped phase qty alloc opp Buy show ?thesis
      by (simp add: add_order_def Let_def add_to_bids_eq own_ladder_def opposite_def buf
                    buf'_def)
  next
    case Sell
    from one ord Sell
    have "(\<exists>level. ladder_add (\<lambda>x y. x < y) buf' (asks b) ord = [level] \<and> price level = px)
          \<and> book_queue buf' (ladder_add (\<lambda>x y. x < y) buf' (asks b) ord)
              = book_queue ?buf (asks b) @ [(ident, px, qty)]"
      by (intro ladder_add_one_price [where c = "side_char side"])
         (simp_all add: own_ladder_def buf'_def)
    with unmapped phase qty alloc opp Sell show ?thesis
      by (simp add: add_order_def Let_def add_to_asks_eq own_ladder_def opposite_def buf
                    buf'_def)
  qed
qed


definition adds_at :: "u64 \<Rightarrow> Side \<Rightarrow> (u64 \<times> u32) list \<Rightarrow> Op list" where
  "adds_at px side adds = map (\<lambda>a. AddOrder (fst a) px (snd a) side True) adds"

lemma adds_at_queue:
  assumes "distinct (map fst adds)" and "\<forall>a \<in> set adds. snd a \<noteq> 0"
    and "length adds \<le> Capacity"
  shows "own_ladder (run Capacity (adds_at px side adds)) (opposite side) = []
         \<and> (own_ladder (run Capacity (adds_at px side adds)) side = []
            \<or> (\<exists>level. own_ladder (run Capacity (adds_at px side adds)) side = [level]
                  \<and> price level = px))
         \<and> book_queue (buffer (pool (run Capacity (adds_at px side adds))))
              (own_ladder (run Capacity (adds_at px side adds)) side)
            = map (\<lambda>a. (fst a, px, snd a)) adds"
  using assms
proof (induction adds rule: rev_induct)
  case Nil
  show ?case
    by (simp add: adds_at_def run_def OrderBook_init_def own_ladder_def)
next
  case (snoc a adds)
  let ?b = "run Capacity (adds_at px side adds)"
  from snoc.prems have "distinct (map fst adds)" "\<forall>a \<in> set adds. snd a \<noteq> 0"
    "length adds \<le> Capacity"
    by auto
  from snoc.IH [OF this] have opp: "own_ladder ?b (opposite side) = []"
    and one: "own_ladder ?b side = [] \<or> (\<exists>level. own_ladder ?b side = [level] \<and> price level = px)"
    and queue: "book_queue (buffer (pool ?b)) (own_ladder ?b side)
                = map (\<lambda>a. (fst a, px, snd a)) adds"
    by blast+
  from snoc.prems have room: "length (book_queue (buffer (pool ?b)) (own_ladder ?b side)) < Capacity"
    by (simp add: queue)
  from snoc.prems have fresh: "fst a \<notin> fst ` set (book_queue (buffer (pool ?b)) (own_ladder ?b side))"
    by (force simp: queue)
  from snoc.prems have qty: "snd a \<noteq> 0" by simp
  from add_order_rests_behind [OF run_store opp one room fresh qty, of True]
  obtain b' where step: "add_order ?b (fst a) px (snd a) side True = (True, b', [])"
    and opp': "own_ladder b' (opposite side) = []"
    and one': "\<exists>level. own_ladder b' side = [level] \<and> price level = px"
    and queue': "book_queue (buffer (pool b')) (own_ladder b' side)
                 = book_queue (buffer (pool ?b)) (own_ladder ?b side) @ [(fst a, px, snd a)]"
    by blast
  have "run Capacity (adds_at px side (adds @ [a])) = b'"
    using step by (simp add: adds_at_def run_snoc)
  with opp' one' queue' queue show ?case by simp
qed

lemma adds_at_crossing_makers:
  assumes "distinct (map fst adds)" and "\<forall>a \<in> set adds. snd a \<noteq> 0"
    and "length adds \<le> Capacity"
    and cross: "if side = Buy then px \<le> limit else limit \<le> px"
  shows "crossing_makers (run Capacity (adds_at px (opposite side) adds)) side limit
         = map (\<lambda>a. (fst a, px, snd a)) adds"
proof -
  let ?b = "run Capacity (adds_at px (opposite side) adds)"
  let ?own = "own_ladder ?b (opposite side)"
  from adds_at_queue [OF assms(1-3), of px "opposite side"]
  have one: "?own = [] \<or> (\<exists>level. ?own = [level] \<and> price level = px)"
    and queue: "book_queue (buffer (pool ?b)) ?own = map (\<lambda>a. (fst a, px, snd a)) adds"
    by blast+
  have "crossing_makers ?b side limit = book_queue (buffer (pool ?b)) ?own"
    using one cross
    by (cases side) (auto simp: crossing_makers_def own_ladder_def opposite_def)
  with queue show ?thesis by simp
qed


lemma adds_at_unmapped:
  assumes "distinct (map fst adds)" and "\<forall>a \<in> set adds. snd a \<noteq> 0"
    and "length adds \<le> Capacity" and fresh: "ident \<notin> fst ` set adds"
  shows "order_map (run Capacity (adds_at px side adds)) ident = None"
proof (rule ccontr)
  let ?b = "run Capacity (adds_at px side adds)"
  let ?buf = "buffer (pool ?b)"
  assume "order_map ?b ident \<noteq> None"
  then obtain s where "order_map ?b ident = Some s" by auto
  with run_store [of Capacity "adds_at px side adds"]
  have s: "s \<in> set (live ?b)" and ident: "order_id (?buf s) = ident"
    by (auto simp: store_inv_def index_ok_def)
  from adds_at_queue [OF assms(1-3), of px side]
  have opp: "own_ladder ?b (opposite side) = []"
    and queue: "book_queue ?buf (own_ladder ?b side) = map (\<lambda>a. (fst a, px, snd a)) adds"
    by blast+
  from opp have "live ?b = slots (own_ladder ?b side)"
    by (cases side) (simp_all add: own_ladder_def opposite_def live_def)
  with s ident have "ident \<in> set (map (\<lambda>s. order_id (?buf s)) (slots (own_ladder ?b side)))"
    by force
  then have "ident \<in> set (map fst (book_queue ?buf (own_ladder ?b side)))"
    unfolding book_queue_ids .
  with fresh show False
    unfolding queue by (simp add: o_def)
qed

lemma fills_price_order:
  assumes "sorted_wrt R (map (\<lambda>m. fst (snd m)) queue)"
  shows "sorted_wrt (\<lambda>e e'. R (exec_price e) (exec_price e')) (fills taker mside r queue)"
proof -
  from assms have "sorted_wrt R (take (length (fills taker mside r queue))
                                   (map (\<lambda>m. fst (snd m)) queue))"
    by (rule sorted_wrt_take)
  then have "sorted_wrt R (map exec_price (fills taker mside r queue))"
    by (simp only: fills_prices [symmetric])
  then show ?thesis by (simp only: sorted_wrt_map)
qed

lemma fills_distinct:
  assumes "distinct (map fst queue)"
  shows "distinct (map maker_id (fills taker mside r queue))"
proof -
  from assms have "distinct (take (length (fills taker mside r queue)) (map fst queue))"
    by (rule distinct_take)
  then show ?thesis by (simp only: fills_makers [symmetric])
qed

subsection \<open>Arrival order\<close>

text \<open>
  The calls of a history are numbered from 1. A call rests an order under identifier
  \<open>k\<close> when it is an \<^verbatim>\<open>add_order\<close> for \<open>k\<close>, \<open>k\<close> is not in the order map before the
  call and is in it after the call. The arrival stamp of \<open>k\<close> after a history is the
  number of the last call that rested an order under \<open>k\<close>, and 0 if there is none.
\<close>

definition rests :: "OrderBook \<Rightarrow> Op \<Rightarrow> u64 \<Rightarrow> bool" where
  "rests b x k =
     (case x of
        AddOrder ident limit qty side on_execution \<Rightarrow>
          ident = k \<and> order_map b k = None \<and> order_map (apply_op b x) k \<noteq> None
      | CancelOrder ident \<Rightarrow> False)"

fun arrival_rev :: "nat \<Rightarrow> Op list \<Rightarrow> u64 \<Rightarrow> nat" where
  "arrival_rev Capacity [] k = 0"
| "arrival_rev Capacity (x # past) k =
     (if rests (run Capacity (rev past)) x k then Suc (length past)
      else arrival_rev Capacity past k)"

definition arrival :: "nat \<Rightarrow> Op list \<Rightarrow> u64 \<Rightarrow> nat" where
  "arrival Capacity ops k = arrival_rev Capacity (rev ops) k"

lemma arrival_Nil [simp]: "arrival Capacity [] k = 0"
  by (simp add: arrival_def)

lemma arrival_snoc:
  "arrival Capacity (ops @ [x]) k =
     (if rests (run Capacity ops) x k then Suc (length ops) else arrival Capacity ops k)"
  by (simp add: arrival_def)

text \<open>
  The invariant: every order in the book carries a stamp between 1 and the number of calls
  made, and along the list of every level the stamps strictly increase.
\<close>

definition arrival_ok :: "(u64 \<Rightarrow> nat) \<Rightarrow> nat \<Rightarrow> OrderBook \<Rightarrow> bool" where
  "arrival_ok a n b \<longleftrightarrow>
     (\<forall>s \<in> set (live b). 0 < a (order_id (buffer (pool b) s))
                             \<and> a (order_id (buffer (pool b) s)) \<le> n)
     \<and> (\<forall>level \<in> set (bids b) \<union> set (asks b).
           sorted_wrt (<) (map (\<lambda>s. a (order_id (buffer (pool b) s))) (orders level)))"

text \<open>
  Matching only pops orders from the front of a level and erases drained levels: every
  level it leaves is a level it found with a prefix of its list dropped. It writes the
  quantity of an order and nothing else.
\<close>

definition trimmed :: "PriceLevel list \<Rightarrow> PriceLevel list \<Rightarrow> bool" where
  "trimmed xs ys \<longleftrightarrow> (\<forall>level' \<in> set xs. \<exists>level \<in> set ys. \<exists>k. orders level' = drop k (orders level))"

lemma trimmed_refl [simp]: "trimmed xs xs"
  unfolding trimmed_def
proof
  fix level' assume "level' \<in> set xs"
  moreover have "orders level' = drop 0 (orders level')" by simp
  ultimately show "\<exists>level \<in> set xs. \<exists>k. orders level' = drop k (orders level)" by blast
qed

lemma trimmed_trans: "trimmed xs ys \<Longrightarrow> trimmed ys zs \<Longrightarrow> trimmed xs zs"
  unfolding trimmed_def
proof
  fix level' assume a: "\<forall>level' \<in> set xs. \<exists>level \<in> set ys. \<exists>k. orders level' = drop k (orders level)"
    and b: "\<forall>level' \<in> set ys. \<exists>level \<in> set zs. \<exists>k. orders level' = drop k (orders level)"
    and m: "level' \<in> set xs"
  from a m obtain l1 k1 where l1: "l1 \<in> set ys" "orders level' = drop k1 (orders l1)" by blast
  from b l1(1) obtain l2 k2 where l2: "l2 \<in> set zs" "orders l1 = drop k2 (orders l2)" by blast
  from l1(2) l2(2) have "orders level' = drop (k1 + k2) (orders l2)" by simp
  with l2(1) show "\<exists>level \<in> set zs. \<exists>k. orders level' = drop k (orders level)" by blast
qed

lemma trimmed_slots: "trimmed xs ys \<Longrightarrow> set (slots xs) \<subseteq> set (slots ys)"
proof
  fix s assume t: "trimmed xs ys" and "s \<in> set (slots xs)"
  then obtain level' where "level' \<in> set xs" "s \<in> set (orders level')"
    by (auto simp: slots_def)
  with t obtain level k where "level \<in> set ys" "s \<in> set (drop k (orders level))"
    unfolding trimmed_def by metis
  then show "s \<in> set (slots ys)"
    by (auto simp: slots_def dest: in_set_dropD)
qed

lemma match_fill_ids:
  assumes "match_fill b level taker remaining mside cb calls = (b', level', r', c')"
  shows "(\<forall>t. order_id (buffer (pool b') t) = order_id (buffer (pool b) t))
         \<and> (orders level' = orders level \<or> orders level' = tl (orders level))"
  using assms
  by (auto simp: match_fill_def Let_def reduce_qty_def reduce_volume_def deallocate_def
           split: if_splits)

lemma match_at_level_ids:
  assumes "match_at_level b level taker remaining mside cb calls = res"
  shows "(\<forall>t. order_id (buffer (pool (fst res)) t) = order_id (buffer (pool b) t))
         \<and> (\<exists>k. orders (fst (snd res)) = drop k (orders level))"
  using assms
proof (induction rule: match_at_level_induct)
  case (stop b level remaining calls)
  show ?case by (auto intro: exI [of _ 0])
next
  case (iterate b level remaining calls b1 l1 r1 c1 res)
  from match_fill_ids [OF iterate(3)]
  have ids: "\<forall>t. order_id (buffer (pool b1) t) = order_id (buffer (pool b) t)"
    and step: "orders l1 = orders level \<or> orders l1 = tl (orders level)"
    by simp_all
  from step obtain j where j: "orders l1 = drop j (orders level)"
    by (metis drop0 drop_Suc)
  from iterate(5) obtain k where k: "orders (fst (snd res)) = drop k (orders l1)"
    by blast
  from j k have "orders (fst (snd res)) = drop (k + j) (orders level)" by simp
  with iterate(5) ids show ?case by auto
qed


lemma trimmed_front:
  assumes "orders l1 = drop k (orders l)"
  shows "trimmed (if orders l1 = [] then ls else l1 # ls) (l # ls)"
  unfolding trimmed_def
proof
  fix level' assume m: "level' \<in> set (if orders l1 = [] then ls else l1 # ls)"
  show "\<exists>level \<in> set (l # ls). \<exists>k. orders level' = drop k (orders level)"
  proof (cases "level' \<in> set ls")
    case True
    have "orders level' = drop 0 (orders level')" by simp
    with True show ?thesis by (metis list.set_intros(2))
  next
    case False
    with m have "level' = l1" by (auto split: if_splits)
    with assms show ?thesis by auto
  qed
qed

lemma match_buy_loop_ids:
  assumes "match_buy_loop b taker limit remaining cb calls = res"
  shows "(\<forall>t. order_id (buffer (pool (fst res)) t) = order_id (buffer (pool b) t))
         \<and> trimmed (asks (fst res)) (asks b) \<and> bids (fst res) = bids b"
  using assms
proof (induction rule: match_buy_loop_induct)
  case (stop b remaining calls)
  show ?case by simp
next
  case (sweep b remaining calls b1 l1 r1 c1 res)
  from sweep(2) obtain l ls where ladder: "asks b = l # ls"
    by (cases "asks b") auto
  from match_at_level_ids [OF sweep(4)] obtain k
    where ids: "\<forall>t. order_id (buffer (pool b1) t) = order_id (buffer (pool b) t)"
      and k: "orders l1 = drop k (orders l)"
    by (auto simp: ladder)
  from match_at_level_exit [OF sweep(4)] have same: "bids b1 = bids b" by simp
  have "trimmed (if orders l1 = [] then tl (asks b) else l1 # tl (asks b)) (asks b)"
    unfolding ladder list.sel by (rule trimmed_front [OF k])
  with sweep(6) have "trimmed (asks (fst res)) (asks b)"
    by (auto intro: trimmed_trans)
  with sweep(6) ids same show ?case by simp
qed

lemma match_sell_loop_ids:
  assumes "match_sell_loop b taker limit remaining cb calls = res"
  shows "(\<forall>t. order_id (buffer (pool (fst res)) t) = order_id (buffer (pool b) t))
         \<and> trimmed (bids (fst res)) (bids b) \<and> asks (fst res) = asks b"
  using assms
proof (induction rule: match_sell_loop_induct)
  case (stop b remaining calls)
  show ?case by simp
next
  case (sweep b remaining calls b1 l1 r1 c1 res)
  from sweep(2) obtain l ls where ladder: "bids b = l # ls"
    by (cases "bids b") auto
  from match_at_level_ids [OF sweep(4)] obtain k
    where ids: "\<forall>t. order_id (buffer (pool b1) t) = order_id (buffer (pool b) t)"
      and k: "orders l1 = drop k (orders l)"
    by (auto simp: ladder)
  from match_at_level_exit [OF sweep(4)] have same: "asks b1 = asks b" by simp
  have "trimmed (if orders l1 = [] then tl (bids b) else l1 # tl (bids b)) (bids b)"
    unfolding ladder list.sel by (rule trimmed_front [OF k])
  with sweep(6) have "trimmed (bids (fst res)) (bids b)"
    by (auto intro: trimmed_trans)
  with sweep(6) ids same show ?case by simp
qed

lemma sorted_wrt_map_drop:
  "sorted_wrt R (map f xs) \<Longrightarrow> sorted_wrt R (map f (drop k xs))"
  by (simp add: drop_map [symmetric] sorted_wrt_drop)

lemma arrival_ok_trim:
  assumes ok: "arrival_ok a n b"
    and tb: "trimmed (bids b') (bids b)" and ta: "trimmed (asks b') (asks b)"
    and ids: "\<forall>t. order_id (buffer (pool b') t) = order_id (buffer (pool b) t)"
    and n: "n \<le> n'"
  shows "arrival_ok a n' b'"
proof -
  from trimmed_slots [OF tb] trimmed_slots [OF ta] have "set (live b') \<subseteq> set (live b)"
    by (auto simp: live_def)
  with ok ids n have 1: "\<forall>s \<in> set (live b'). 0 < a (order_id (buffer (pool b') s))
                                         \<and> a (order_id (buffer (pool b') s)) \<le> n'"
    by (auto simp: arrival_ok_def intro: order_trans)
  have 2: "sorted_wrt (<) (map (\<lambda>s. a (order_id (buffer (pool b') s))) (orders level'))"
    if "level' \<in> set (bids b') \<union> set (asks b')" for level'
  proof -
    from that tb ta obtain level k where level: "level \<in> set (bids b) \<union> set (asks b)"
      and k: "orders level' = drop k (orders level)"
      unfolding trimmed_def by (metis Un_iff)
    from ok level
    have "sorted_wrt (<) (map (\<lambda>s. a (order_id (buffer (pool b) s))) (orders level))"
      by (simp add: arrival_ok_def)
    then have "sorted_wrt (<) (map (\<lambda>s. a (order_id (buffer (pool b) s))) (orders level'))"
      unfolding k by (rule sorted_wrt_map_drop)
    with ids show ?thesis by simp
  qed
  from 1 2 show ?thesis unfolding arrival_ok_def by blast
qed


text \<open>The four ways in which \<^verbatim>\<open>add_order\<close> returns.\<close>

lemma add_order_cases [case_names duplicate matched exhausted rested]:
  obtains (duplicate) "order_map b ident \<noteq> None"
      and "add_order b ident limit qty side cb = (False, b, [])"
  | (matched) b1 calls where "order_map b ident = None"
      and "(if side = Buy then match_buy b ident limit qty cb
            else match_sell b ident limit qty cb) = (b1, 0, calls)"
      and "add_order b ident limit qty side cb = (True, b1, calls)"
  | (exhausted) b1 rem calls where "order_map b ident = None"
      and "(if side = Buy then match_buy b ident limit qty cb
            else match_sell b ident limit qty cb) = (b1, rem, calls)"
      and "rem \<noteq> 0" and "free_count (pool b1) = 0"
      and "add_order b ident limit qty side cb = (False, b1, calls)"
  | (rested) b1 rem calls ord p buf' where "order_map b ident = None"
      and "(if side = Buy then match_buy b ident limit qty cb
            else match_sell b ident limit qty cb) = (b1, rem, calls)"
      and "rem \<noteq> 0" and "allocate (pool b1) = (Some ord, p)"
      and "buf' = (buffer (pool b1))(ord := \<lparr>order_id = ident, order_price = limit,
                     order_qty = rem, order_side = side_char side\<rparr>)"
      and "add_order b ident limit qty side cb
           = (True,
              b1\<lparr>bids := (if side = Buy then ladder_add (\<lambda>x y. x > y) buf' (bids b1) ord
                           else bids b1),
                 asks := (if side = Buy then asks b1
                           else ladder_add (\<lambda>x y. x < y) buf' (asks b1) ord),
                 order_map := (order_map b1)(ident \<mapsto> ord),
                 pool := p\<lparr>buffer := buf'\<rparr>\<rparr>,
              calls)"
proof (cases "order_map b ident \<noteq> None")
  case True
  then have "add_order b ident limit qty side cb = (False, b, [])"
    by (simp add: add_order_def)
  with True show ?thesis by (rule duplicate)
next
  case False
  then have fresh: "order_map b ident = None" by simp
  obtain b1 rem calls where
    phase: "(if side = Buy then match_buy b ident limit qty cb
             else match_sell b ident limit qty cb) = (b1, rem, calls)"
    by (metis prod_cases3)
  show ?thesis
  proof (cases "rem = 0")
    case True
    with fresh phase have "add_order b ident limit qty side cb = (True, b1, calls)"
      by (simp add: add_order_def)
    with fresh phase True show ?thesis by (auto intro: matched)
  next
    case residual: False
    show ?thesis
    proof (cases "free_count (pool b1) = 0")
      case True
      then have "allocate (pool b1) = (None, pool b1)" by (simp add: allocate_def)
      with fresh phase residual
      have "add_order b ident limit qty side cb = (False, b1, calls)"
        by (simp add: add_order_def)
      with fresh phase residual True show ?thesis by (rule exhausted)
    next
      case False
      define ord where "ord = free_list (pool b1) ! (free_count (pool b1) - 1)"
      define p where "p = (pool b1)\<lparr>free_count := free_count (pool b1) - 1\<rparr>"
      define buf' where "buf' = (buffer (pool b1))(ord := \<lparr>order_id = ident,
          order_price = limit, order_qty = rem, order_side = side_char side\<rparr>)"
      from False have alloc: "allocate (pool b1) = (Some ord, p)"
        by (simp add: allocate_def Let_def ord_def p_def)
      have bufp: "buffer p = buffer (pool b1)" by (simp add: p_def)
      from fresh phase residual alloc
      have "add_order b ident limit qty side cb
           = (True,
              b1\<lparr>bids := (if side = Buy then ladder_add (\<lambda>x y. x > y) buf' (bids b1) ord
                           else bids b1),
                 asks := (if side = Buy then asks b1
                           else ladder_add (\<lambda>x y. x < y) buf' (asks b1) ord),
                 order_map := (order_map b1)(ident \<mapsto> ord),
                 pool := p\<lparr>buffer := buf'\<rparr>\<rparr>,
              calls)"
        by (cases side)
           (simp_all add: add_order_def Let_def add_to_bids_eq add_to_asks_eq bufp buf'_def)
      with fresh phase residual alloc buf'_def show ?thesis by (rule rested)
    qed
  qed
qed

lemma match_phase_facts:
  assumes inv: "store_inv Capacity b" and fresh: "order_map b ident = None"
    and phase: "(if side = Buy then match_buy b ident limit qty cb
                 else match_sell b ident limit qty cb) = (b1, rem, calls)"
  shows "store_inv Capacity b1" and "order_map b1 ident = None"
    and "\<forall>t. order_id (buffer (pool b1) t) = order_id (buffer (pool b) t)"
    and "trimmed (bids b1) (bids b)" and "trimmed (asks b1) (asks b)"
proof -
  show "store_inv Capacity b1"
    using phase match_buy_loop_store [of b ident limit qty cb "[]" "(b1, rem, calls)", OF _ inv]
      match_sell_loop_store [of b ident limit qty cb "[]" "(b1, rem, calls)", OF _ inv]
    by (auto simp: match_buy_def match_sell_def split: if_splits)
  show "order_map b1 ident = None"
    using phase fresh match_buy_loop_frame [of b ident limit qty cb "[]" "(b1, rem, calls)" ident]
      match_sell_loop_frame [of b ident limit qty cb "[]" "(b1, rem, calls)" ident]
    by (auto simp: match_buy_def match_sell_def split: if_splits)
  show "\<forall>t. order_id (buffer (pool b1) t) = order_id (buffer (pool b) t)"
    using phase match_buy_loop_ids [of b ident limit qty cb "[]" "(b1, rem, calls)"]
      match_sell_loop_ids [of b ident limit qty cb "[]" "(b1, rem, calls)"]
    by (auto simp: match_buy_def match_sell_def split: if_splits)
  show "trimmed (bids b1) (bids b)"
    using phase match_buy_loop_ids [of b ident limit qty cb "[]" "(b1, rem, calls)"]
      match_sell_loop_ids [of b ident limit qty cb "[]" "(b1, rem, calls)"]
    by (auto simp: match_buy_def match_sell_def split: if_splits)
  show "trimmed (asks b1) (asks b)"
    using phase match_buy_loop_ids [of b ident limit qty cb "[]" "(b1, rem, calls)"]
      match_sell_loop_ids [of b ident limit qty cb "[]" "(b1, rem, calls)"]
    by (auto simp: match_buy_def match_sell_def split: if_splits)
qed


text \<open>
  An order that rests is pushed at the back of its level with the number of the current
  call, which exceeds every stamp in the book.
\<close>

lemma ladder_add_arrival:
  assumes sorted: "\<forall>level \<in> set xs. sorted_wrt (<) (map (\<lambda>s. a (order_id (buf s))) (orders level))"
    and bound: "\<forall>s \<in> set (slots xs). a (order_id (buf s)) \<le> n"
    and fresh: "ord \<notin> set (slots xs)"
    and agree: "\<forall>t. t \<noteq> ord \<longrightarrow> buf' t = buf t"
    and new: "a' (order_id (buf' ord)) = Suc n"
    and old: "\<forall>s \<in> set (slots xs). a' (order_id (buf s)) = a (order_id (buf s))"
  shows "\<forall>level \<in> set (ladder_add R buf' xs ord).
           sorted_wrt (<) (map (\<lambda>s. a' (order_id (buf' s))) (orders level))"
proof -
  have same: "map (\<lambda>s. a' (order_id (buf' s))) (orders level)
              = map (\<lambda>s. a (order_id (buf s))) (orders level)"
    if "level \<in> set xs" for level
  proof (rule map_cong [OF refl])
    fix s assume "s \<in> set (orders level)"
    with that in_slots [of level xs] have s: "s \<in> set (slots xs)" by auto
    with fresh agree have "buf' s = buf s" by auto
    with old s show "a' (order_id (buf' s)) = a (order_id (buf s))" by simp
  qed
  have keep: "sorted_wrt (<) (map (\<lambda>s. a' (order_id (buf' s))) (orders level))"
    if "level \<in> set xs" for level
    using sorted that by (simp only: same [OF that])
  have push: "sorted_wrt (<) (map (\<lambda>s. a' (order_id (buf' s))) (orders level @ [ord]))"
    if "level \<in> set xs" for level
  proof -
    have "a' (order_id (buf' s)) < Suc n" if s: "s \<in> set (orders level)" for s
    proof -
      from s \<open>level \<in> set xs\<close> in_slots [of level xs] have m: "s \<in> set (slots xs)" by auto
      with fresh agree have "buf' s = buf s" by auto
      with old bound m show ?thesis by (simp add: less_Suc_eq_le)
    qed
    with keep [OF that] new show ?thesis
      by (simp add: sorted_wrt_append)
  qed
  show ?thesis
  proof (cases rule: ladder_add_cases [of xs buf' ord R])
    case (join pre level post)
    have home: "level \<in> set xs" by (simp add: join(1))
    show ?thesis
      unfolding join(3)
    proof
      fix l assume "l \<in> set (pre @ PriceLevel_add_order buf' level ord # post)"
      then have "l \<in> set xs \<or> l = PriceLevel_add_order buf' level ord"
        by (auto simp: join(1))
      then show "sorted_wrt (<) (map (\<lambda>s. a' (order_id (buf' s))) (orders l))"
      proof
        assume "l \<in> set xs"
        then show ?thesis by (rule keep)
      next
        assume "l = PriceLevel_add_order buf' level ord"
        with push [OF home] show ?thesis by (simp add: PriceLevel_add_order_def)
      qed
    qed
  next
    case (fresh pre post)
    show ?thesis
      unfolding fresh(2)
    proof
      fix l
      assume "l \<in> set (pre @ PriceLevel_add_order buf'
                               (PriceLevel_new (order_price (buf' ord))) ord # post)"
      then have "l \<in> set xs
                 \<or> l = PriceLevel_add_order buf' (PriceLevel_new (order_price (buf' ord))) ord"
        by (auto simp: fresh(1))
      then show "sorted_wrt (<) (map (\<lambda>s. a' (order_id (buf' s))) (orders l))"
      proof
        assume "l \<in> set xs"
        then show ?thesis by (rule keep)
      next
        assume "l = PriceLevel_add_order buf' (PriceLevel_new (order_price (buf' ord))) ord"
        then show ?thesis by (simp add: PriceLevel_add_order_def PriceLevel_new_def)
      qed
    qed
  qed
qed

lemma arrival_ok_rest:
  assumes inv: "store_inv Capacity b1" and ok: "arrival_ok a n b1"
    and fresh: "order_map b1 ident = None"
    and alloc: "allocate (pool b1) = (Some ord, p)"
    and buf': "buf' = (buffer (pool b1))(ord := \<lparr>order_id = ident, order_price = limit,
                     order_qty = rem, order_side = side_char side\<rparr>)"
    and rem: "rem \<noteq> 0"
    and a': "a' = (\<lambda>k. if k = ident then Suc n else a k)"
  shows "arrival_ok a' (Suc n)
           (b1\<lparr>bids := (if side = Buy then ladder_add (\<lambda>x y. x > y) buf' (bids b1) ord
                         else bids b1),
               asks := (if side = Buy then asks b1
                         else ladder_add (\<lambda>x y. x < y) buf' (asks b1) ord),
               order_map := (order_map b1)(ident \<mapsto> ord),
               pool := p\<lparr>buffer := buf'\<rparr>\<rparr>)"
proof -
  let ?buf = "buffer (pool b1)"
  from inv have pool1: "pool_ok Capacity (pool b1) (live b1)"
    and idx1: "index_ok (order_map b1) ?buf (set (live b1))"
    and bl: "\<forall>level \<in> set (bids b1). level_ok ?buf CHR ''B'' level"
    and al: "\<forall>level \<in> set (asks b1). level_ok ?buf CHR ''S'' level"
    by (simp_all add: store_inv_def)
  from pool_ok_acquire [OF pool1 alloc] have out: "ord \<notin> set (live b1)" by simp
  then have outb: "ord \<notin> set (slots (bids b1))" and outa: "ord \<notin> set (slots (asks b1))"
    by (simp_all add: live_def)
  have agree: "\<forall>t. t \<noteq> ord \<longrightarrow> buf' t = ?buf t" by (simp add: buf')
  have new: "a' (order_id (buf' ord)) = Suc n" by (simp add: a' buf')
  have other: "order_id (?buf s) \<noteq> ident" if "s \<in> set (live b1)" for s
  proof
    assume "order_id (?buf s) = ident"
    moreover from idx1 that have "order_map b1 (order_id (?buf s)) = Some s"
      by (simp add: index_ok_def)
    ultimately show False using fresh by simp
  qed
  then have old: "\<forall>s \<in> set (live b1). a' (order_id (?buf s)) = a (order_id (?buf s))"
    by (simp add: a')
  from ok have bound: "\<forall>s \<in> set (live b1). a (order_id (?buf s)) \<le> n"
    and pos: "\<forall>s \<in> set (live b1). 0 < a (order_id (?buf s))"
    and sorted: "\<forall>level \<in> set (bids b1) \<union> set (asks b1).
                   sorted_wrt (<) (map (\<lambda>s. a (order_id (?buf s))) (orders level))"
    by (simp_all add: arrival_ok_def)
  have keep: "sorted_wrt (<) (map (\<lambda>s. a' (order_id (buf' s))) (orders level))"
    if "level \<in> set (bids b1) \<union> set (asks b1)" for level
  proof -
    have "map (\<lambda>s. a' (order_id (buf' s))) (orders level)
          = map (\<lambda>s. a (order_id (?buf s))) (orders level)"
    proof (rule map_cong [OF refl])
      fix s assume "s \<in> set (orders level)"
      with that have s: "s \<in> set (live b1)" by (auto simp: live_def slots_def)
      with out agree have "buf' s = ?buf s" by auto
      with old s show "a' (order_id (buf' s)) = a (order_id (?buf s))" by simp
    qed
    moreover from sorted that
    have "sorted_wrt (<) (map (\<lambda>s. a (order_id (?buf s))) (orders level))" by blast
    ultimately show ?thesis by (simp only:)
  qed
  have le: "0 < a' (order_id (buf' s)) \<and> a' (order_id (buf' s)) \<le> Suc n"
    if "s = ord \<or> s \<in> set (live b1)" for s
  proof (cases "s = ord")
    case True
    with new show ?thesis by simp
  next
    case False
    with that have s: "s \<in> set (live b1)" by simp
    with out agree have "buf' s = ?buf s" by auto
    with old bound pos s show ?thesis by (simp add: le_SucI)
  qed
  have new_qty: "order_qty (buf' ord) \<noteq> 0" using rem by (simp add: buf')
  show ?thesis
  proof (cases "side = Buy")
    case True
    let ?xs = "ladder_add (\<lambda>x y. x > y) buf' (bids b1) ord"
    have new_side: "order_side (buf' ord) = CHR ''B''" using True by (simp add: buf')
    from ladder_add_store [OF bl outb new_side new_qty agree, of "\<lambda>x y. x > y"]
    have s: "set (slots ?xs) = insert ord (set (slots (bids b1)))" by blast
    have "\<forall>level \<in> set ?xs. sorted_wrt (<) (map (\<lambda>s. a' (order_id (buf' s))) (orders level))"
      by (rule ladder_add_arrival [where a = a and buf = ?buf and n = n])
         (use sorted bound outb agree new old in \<open>auto simp: live_def\<close>)
    with keep le s True show ?thesis
      by (auto simp: arrival_ok_def live_def)
  next
    case False
    let ?xs = "ladder_add (\<lambda>x y. x < y) buf' (asks b1) ord"
    from False have "side_char side = CHR ''S''" by (cases side) simp_all
    then have new_side: "order_side (buf' ord) = CHR ''S''" by (simp add: buf')
    from ladder_add_store [OF al outa new_side new_qty agree, of "\<lambda>x y. x < y"]
    have s: "set (slots ?xs) = insert ord (set (slots (asks b1)))" by blast
    have "\<forall>level \<in> set ?xs. sorted_wrt (<) (map (\<lambda>s. a' (order_id (buf' s))) (orders level))"
      by (rule ladder_add_arrival [where a = a and buf = ?buf and n = n])
         (use sorted bound outa agree new old in \<open>auto simp: live_def\<close>)
    with keep le s False show ?thesis
      by (auto simp: arrival_ok_def live_def)
  qed
qed


lemma add_order_arrival:
  assumes inv: "store_inv Capacity b" and ok: "arrival_ok a n b"
  shows "arrival_ok (\<lambda>k. if rests b (AddOrder ident limit qty side cb) k then Suc n else a k)
           (Suc n) (apply_op b (AddOrder ident limit qty side cb))"
proof (cases rule: add_order_cases [of b ident limit qty side cb])
  case duplicate
  then have "\<forall>k. \<not> rests b (AddOrder ident limit qty side cb) k"
    by (auto simp: rests_def)
  moreover have "arrival_ok a (Suc n) b"
    by (rule arrival_ok_trim [OF ok]) simp_all
  ultimately show ?thesis using duplicate(2) by simp
next
  case (matched b1 calls)
  note facts = match_phase_facts [OF inv matched(1) matched(2)]
  from facts(2) matched(3) have "\<forall>k. \<not> rests b (AddOrder ident limit qty side cb) k"
    by (auto simp: rests_def)
  moreover have "arrival_ok a (Suc n) b1"
    by (rule arrival_ok_trim [OF ok facts(4) facts(5) facts(3)]) simp
  ultimately show ?thesis using matched(3) by simp
next
  case (exhausted b1 rem calls)
  note facts = match_phase_facts [OF inv exhausted(1) exhausted(2)]
  from facts(2) exhausted(5) have "\<forall>k. \<not> rests b (AddOrder ident limit qty side cb) k"
    by (auto simp: rests_def)
  moreover have "arrival_ok a (Suc n) b1"
    by (rule arrival_ok_trim [OF ok facts(4) facts(5) facts(3)]) simp
  ultimately show ?thesis using exhausted(5) by simp
next
  case (rested b1 rem calls ord p buf')
  note facts = match_phase_facts [OF inv rested(1) rested(2)]
  have ok1: "arrival_ok a n b1"
    by (rule arrival_ok_trim [OF ok facts(4) facts(5) facts(3)]) simp
  from rested(1) rested(6)
  have r: "rests b (AddOrder ident limit qty side cb) = (\<lambda>k. k = ident)"
    by (auto simp: rests_def fun_eq_iff)
  have "(\<lambda>k. if rests b (AddOrder ident limit qty side cb) k then Suc n else a k)
        = (\<lambda>k. if k = ident then Suc n else a k)"
    by (simp add: r)
  from arrival_ok_rest [OF facts(1) ok1 facts(2) rested(4) rested(5) rested(3) this]
  show ?thesis by (simp add: rested(6))
qed

text \<open>A cancel unlinks one order; the others keep their relative positions.\<close>

lemma sorted_wrt_map_remove1:
  "sorted_wrt R (map f xs) \<Longrightarrow> sorted_wrt R (map f (remove1 x xs))"
  by (induction xs) (auto dest: notin_set_remove1)

lemma remove_from_levels_arrival:
  assumes "\<forall>level \<in> set xs. sorted_wrt R (map f (orders level))"
  shows "(\<forall>level \<in> set (remove_from_levels buf xs ord). sorted_wrt R (map f (orders level)))
         \<and> set (slots (remove_from_levels buf xs ord)) \<subseteq> set (slots xs)"
  using assms
proof (induction xs)
  case Nil
  show ?case by simp
next
  case (Cons level rest)
  from Cons.prems have head: "sorted_wrt R (map f (orders level))"
    and tail: "\<forall>level \<in> set rest. sorted_wrt R (map f (orders level))"
    by simp_all
  show ?case
  proof (cases "price level = order_price (buf ord)")
    case True
    from head have "sorted_wrt R (map f (remove1 ord (orders level)))"
      by (rule sorted_wrt_map_remove1)
    with True tail show ?thesis
      by (auto simp: Let_def PriceLevel_remove_order_def PriceLevel_empty_def
               dest: set_remove1_subset [THEN subsetD])
  next
    case False
    with Cons.IH [OF tail] head show ?thesis by auto
  qed
qed

lemma cancel_order_arrival:
  assumes ok: "arrival_ok a n b"
  shows "arrival_ok a (Suc n) (snd (cancel_order b ident))"
proof (cases "order_map b ident")
  case None
  have "arrival_ok a (Suc n) b"
    by (rule arrival_ok_trim [OF ok]) simp_all
  with None show ?thesis by (simp add: cancel_order_def)
next
  case (Some ord)
  let ?buf = "buffer (pool b)"
  let ?f = "\<lambda>s. a (order_id (?buf s))"
  from ok have bound: "\<forall>s \<in> set (live b). 0 < ?f s \<and> ?f s \<le> n"
    and sb: "\<forall>level \<in> set (bids b). sorted_wrt (<) (map ?f (orders level))"
    and sa: "\<forall>level \<in> set (asks b). sorted_wrt (<) (map ?f (orders level))"
    by (simp_all add: arrival_ok_def)
  note rb = remove_from_levels_arrival [OF sb, of ?buf ord]
  note ra = remove_from_levels_arrival [OF sa, of ?buf ord]
  show ?thesis
  proof (cases "is_buy (?buf ord)")
    case True
    with Some have final: "snd (cancel_order b ident)
        = b\<lparr>order_map := (order_map b)(ident := None),
             bids := remove_from_levels ?buf (bids b) ord,
             pool := deallocate (pool b) ord\<rparr>"
      by (simp add: cancel_order_def Let_def remove_from_bids_def)
    from rb sa bound show ?thesis
      unfolding final arrival_ok_def
      by (auto simp: live_def deallocate_def le_SucI)
  next
    case False
    with Some have final: "snd (cancel_order b ident)
        = b\<lparr>order_map := (order_map b)(ident := None),
             asks := remove_from_levels ?buf (asks b) ord,
             pool := deallocate (pool b) ord\<rparr>"
      by (simp add: cancel_order_def Let_def remove_from_asks_def)
    from ra sb bound show ?thesis
      unfolding final arrival_ok_def
      by (auto simp: live_def deallocate_def le_SucI)
  qed
qed

lemma run_arrival: "arrival_ok (arrival Capacity ops) (length ops) (run Capacity ops)"
proof (induction ops rule: rev_induct)
  case Nil
  show ?case
    by (simp add: arrival_ok_def run_def OrderBook_init_def live_def)
next
  case (snoc x ops)
  show ?case
  proof (cases x)
    case (AddOrder ident limit qty side cb)
    have "arrival Capacity (ops @ [x])
          = (\<lambda>k. if rests (run Capacity ops) (AddOrder ident limit qty side cb) k
                  then Suc (length ops) else arrival Capacity ops k)"
      by (simp add: fun_eq_iff arrival_snoc AddOrder)
    with add_order_arrival [OF run_store snoc, of ident limit qty side cb]
    show ?thesis by (simp add: run_snoc AddOrder)
  next
    case (CancelOrder ident)
    have "arrival Capacity (ops @ [x]) = arrival Capacity ops"
      by (simp add: fun_eq_iff arrival_snoc CancelOrder rests_def)
    with cancel_order_arrival [OF snoc, of ident]
    show ?thesis by (simp add: run_snoc CancelOrder)
  qed
qed


text \<open>
  Hence the queue a taker walks is sorted by price, and by arrival stamp within a price,
  and so is every trace of executions.
\<close>

lemma book_queue_priority:
  assumes prices: "sorted_wrt R (map price ladder)"
    and times: "\<forall>level \<in> set ladder.
                  sorted_wrt (<) (map (\<lambda>s. a (order_id (buf s))) (orders level))"
  shows "sorted_wrt (\<lambda>m m'. R (fst (snd m)) (fst (snd m'))
                            \<or> (fst (snd m) = fst (snd m') \<and> a (fst m) < a (fst m')))
           (book_queue buf ladder)"
  using assms
proof (induction ladder)
  case Nil
  show ?case by simp
next
  case (Cons l ls)
  let ?P = "\<lambda>m m'. R (fst (snd m)) (fst (snd m'))
                    \<or> (fst (snd m) = fst (snd m') \<and> a (fst m) < a (fst m'))"
  from Cons.prems have above: "\<forall>y \<in> price ` set ls. R (price l) y"
    and rest: "sorted_wrt R (map price ls)"
    "\<forall>level \<in> set ls. sorted_wrt (<) (map (\<lambda>s. a (order_id (buf s))) (orders level))"
    and here: "sorted_wrt (<) (map (\<lambda>s. a (order_id (buf s))) (orders l))"
    by auto
  from Cons.IH [OF rest] have tail: "sorted_wrt ?P (book_queue buf ls)" .
  from here have "sorted_wrt (\<lambda>s t. a (order_id (buf s)) < a (order_id (buf t))) (orders l)"
    by (simp only: sorted_wrt_map)
  then have "sorted_wrt (\<lambda>s t. ?P (order_id (buf s), price l, order_qty (buf s))
                                  (order_id (buf t), price l, order_qty (buf t))) (orders l)"
    by (rule sorted_wrt_mono_rel [rotated]) simp
  then have head: "sorted_wrt ?P (level_queue buf l)"
    unfolding level_queue_def by (simp only: sorted_wrt_map)
  have cross: "?P m m'" if "m \<in> set (level_queue buf l)" and "m' \<in> set (book_queue buf ls)"
    for m m'
  proof -
    from that(1) have "fst (snd m) = price l" by (auto simp: level_queue_def)
    moreover from book_queue_price_set [OF that(2)] have "fst (snd m') \<in> price ` set ls" .
    ultimately show ?thesis using above by auto
  qed
  show ?case
    unfolding book_queue_Cons sorted_wrt_append using head tail cross by blast
qed

lemma crossing_makers_priority:
  assumes shape: "ladders_ok b" and ok: "arrival_ok a n b"
  shows "sorted_wrt (\<lambda>m m'. (if side = Buy then fst (snd m) < fst (snd m')
                              else fst (snd m') < fst (snd m))
                            \<or> (fst (snd m) = fst (snd m') \<and> a (fst m) < a (fst m')))
           (crossing_makers b side limit)"
proof (cases "side = Buy")
  case True
  let ?xs = "takeWhile (\<lambda>level. \<not> limit < price level) (asks b)"
  from shape have "sorted_wrt (<) (map price (asks b))" by (simp add: ladders_ok_def)
  then have prices: "sorted_wrt (<) (map price ?xs)"
    by (rule sorted_wrt_map_takeWhile)
  from ok have times: "\<forall>level \<in> set ?xs.
      sorted_wrt (<) (map (\<lambda>s. a (order_id (buffer (pool b) s))) (orders level))"
    by (auto simp: arrival_ok_def dest: set_takeWhileD)
  from book_queue_priority [OF prices times] True show ?thesis
    by (simp add: crossing_makers_def)
next
  case False
  let ?xs = "takeWhile (\<lambda>level. \<not> limit > price level) (bids b)"
  from shape have "sorted_wrt (>) (map price (bids b))" by (simp add: ladders_ok_def)
  then have prices: "sorted_wrt (>) (map price ?xs)"
    by (rule sorted_wrt_map_takeWhile)
  from ok have times: "\<forall>level \<in> set ?xs.
      sorted_wrt (<) (map (\<lambda>s. a (order_id (buffer (pool b) s))) (orders level))"
    by (auto simp: arrival_ok_def dest: set_takeWhileD)
  from book_queue_priority [OF prices times] False show ?thesis
    by (simp add: crossing_makers_def)
qed

lemma fills_keys:
  "map (\<lambda>e. (maker_id e, exec_price e)) (fills taker mside r queue)
   = take (length (fills taker mside r queue)) (map (\<lambda>m. (fst m, fst (snd m))) queue)"
  by (induction queue arbitrary: r) auto

lemma fills_priority:
  assumes "sorted_wrt (\<lambda>m m'. P (fst m, fst (snd m)) (fst m', fst (snd m'))) queue"
  shows "sorted_wrt (\<lambda>e e'. P (maker_id e, exec_price e) (maker_id e', exec_price e'))
           (fills taker mside r queue)"
proof -
  from assms have "sorted_wrt P (map (\<lambda>m. (fst m, fst (snd m))) queue)"
    by (simp only: sorted_wrt_map)
  then have "sorted_wrt P (take (length (fills taker mside r queue))
                             (map (\<lambda>m. (fst m, fst (snd m))) queue))"
    by (rule sorted_wrt_take)
  then have "sorted_wrt P (map (\<lambda>e. (maker_id e, exec_price e)) (fills taker mside r queue))"
    by (simp only: fills_keys [symmetric])
  then show ?thesis by (simp only: sorted_wrt_map)
qed


text \<open>
  C2. For a book reached from the empty book and a call of \<^verbatim>\<open>add_order\<close> with a
  callback, the executions delivered are exactly the executions the specification
  prescribes for the queue of crossing makers: one execution per maker reached, walking
  the opposite ladder best price first and each level front to back. Hence execution
  prices never get better along the trace (ascending for a buyer, descending for a
  seller), no maker is reported twice, and every execution but the last exhausts its
  maker. In every such book the list of every level is in strict arrival order, whatever
  adds, fills and cancels the history contains, and every identifier in the order map
  carries the number of the call that rested it. So the trace is sorted by price and,
  within a price, by arrival: of two makers at one price the one that arrived first is
  executed first. In particular, after any number of adds at one price with distinct
  identifiers and non-zero quantities that fit the pool, a crossing order consumes the
  makers in the order of the adds: the makers reported are a prefix of the list of adds.
\<close>

theorem executions_price_time_priority:
  "snd (snd (add_order (run Capacity ops) ident limit qty side True))
     = (if order_map (run Capacity ops) ident = None
        then fills ident (opposite side) qty (crossing_makers (run Capacity ops) side limit)
        else [])
   \<and> sorted_wrt (\<lambda>e e'. if side = Buy then exec_price e \<le> exec_price e'
                         else exec_price e' \<le> exec_price e)
        (snd (snd (add_order (run Capacity ops) ident limit qty side True)))
   \<and> distinct (map maker_id (snd (snd (add_order (run Capacity ops) ident limit qty side True))))
   \<and> (\<forall>i. Suc i < length (snd (snd (add_order (run Capacity ops) ident limit qty side True)))
          \<longrightarrow> exec_qty (snd (snd (add_order (run Capacity ops) ident limit qty side True)) ! i)
              = snd (snd (crossing_makers (run Capacity ops) side limit ! i)))
   \<and> (\<forall>level \<in> set (bids (run Capacity ops)) \<union> set (asks (run Capacity ops)).
         sorted_wrt (<) (map (\<lambda>m. arrival Capacity ops (fst m))
                           (level_queue (buffer (pool (run Capacity ops))) level)))
   \<and> (\<forall>k. order_map (run Capacity ops) k \<noteq> None
          \<longrightarrow> 0 < arrival Capacity ops k \<and> arrival Capacity ops k \<le> length ops)
   \<and> sorted_wrt (\<lambda>e e'. (if side = Buy then exec_price e < exec_price e'
                          else exec_price e' < exec_price e)
                         \<or> (exec_price e = exec_price e'
                            \<and> arrival Capacity ops (maker_id e)
                                < arrival Capacity ops (maker_id e')))
        (snd (snd (add_order (run Capacity ops) ident limit qty side True)))
   \<and> (distinct (map fst adds) \<and> (\<forall>a \<in> set adds. snd a \<noteq> 0) \<and> length adds \<le> Capacity
        \<and> ident \<notin> fst ` set adds \<and> (if side = Buy then px \<le> limit else limit \<le> px)
      \<longrightarrow> snd (snd (add_order (run Capacity (adds_at px (opposite side) adds))
                        ident limit qty side True))
            = fills ident (opposite side) qty (map (\<lambda>a. (fst a, px, snd a)) adds)
          \<and> map maker_id (snd (snd (add_order (run Capacity (adds_at px (opposite side) adds))
                                      ident limit qty side True)))
            = take (length (snd (snd (add_order (run Capacity (adds_at px (opposite side) adds))
                                         ident limit qty side True))))
                (map fst adds))"
proof -
  let ?b = "run Capacity ops"
  let ?calls = "snd (snd (add_order ?b ident limit qty side True))"
  let ?queue = "crossing_makers ?b side limit"
  let ?a = "arrival Capacity ops"
  have calls: "?calls = (if order_map ?b ident = None
                         then fills ident (opposite side) qty ?queue else [])"
    using add_order_calls [OF run_store [of Capacity ops], of ident limit qty side True] by simp
  from run_shape [of Capacity ops] have shape: "ladders_ok ?b" by simp
  note ok = run_arrival [of Capacity ops]
  have price: "sorted_wrt (\<lambda>e e'. if side = Buy then exec_price e \<le> exec_price e'
                                    else exec_price e' \<le> exec_price e) ?calls"
  proof (cases "order_map ?b ident = None")
    case False
    with calls show ?thesis by simp
  next
    case True
    show ?thesis
    proof (cases "side = Buy")
      case Buy: True
      from crossing_makers_prices [OF shape, of side limit] Buy
      have "sorted_wrt (\<le>) (map (\<lambda>m. fst (snd m)) ?queue)" by simp
      from fills_price_order [OF this, of ident "opposite side" qty] True calls Buy
      show ?thesis by simp
    next
      case Sell: False
      from crossing_makers_prices [OF shape, of side limit] Sell
      have "sorted_wrt (\<ge>) (map (\<lambda>m. fst (snd m)) ?queue)" by simp
      from fills_price_order [OF this, of ident "opposite side" qty] True calls Sell
      show ?thesis by simp
    qed
  qed
  have once: "distinct (map maker_id ?calls)"
    using fills_distinct [OF crossing_makers_distinct [OF run_store [of Capacity ops],
            of side limit], of ident "opposite side" qty] calls
    by simp
  have full: "\<forall>i. Suc i < length ?calls \<longrightarrow> exec_qty (?calls ! i) = snd (snd (?queue ! i))"
  proof (intro allI impI)
    fix i assume i: "Suc i < length ?calls"
    with calls have fresh: "order_map ?b ident = None"
      by (auto split: if_splits)
    with i calls have "Suc i < length (fills ident (opposite side) qty ?queue)"
      by simp
    from fills_complete [OF this] fresh calls
    show "exec_qty (?calls ! i) = snd (snd (?queue ! i))" by simp
  qed
  have times: "\<forall>level \<in> set (bids ?b) \<union> set (asks ?b).
      sorted_wrt (<) (map (\<lambda>m. ?a (fst m)) (level_queue (buffer (pool ?b)) level))"
    using ok by (simp add: arrival_ok_def level_queue_def o_def)
  have stamps: "\<forall>k. order_map ?b k \<noteq> None \<longrightarrow> 0 < ?a k \<and> ?a k \<le> length ops"
  proof (intro allI impI)
    fix k assume "order_map ?b k \<noteq> None"
    then obtain s where "order_map ?b k = Some s" by auto
    with run_store [of Capacity ops]
    have "s \<in> set (live ?b)" "order_id (buffer (pool ?b) s) = k"
      by (auto simp: store_inv_def index_ok_def)
    with ok show "0 < ?a k \<and> ?a k \<le> length ops"
      by (auto simp: arrival_ok_def)
  qed
  have priority: "sorted_wrt (\<lambda>e e'. (if side = Buy then exec_price e < exec_price e'
                                       else exec_price e' < exec_price e)
                                      \<or> (exec_price e = exec_price e'
                                         \<and> ?a (maker_id e) < ?a (maker_id e'))) ?calls"
  proof (cases "order_map ?b ident = None")
    case False
    with calls show ?thesis by simp
  next
    case True
    from crossing_makers_priority [OF shape ok, of side limit]
    have "sorted_wrt (\<lambda>m m'. (\<lambda>k k'. (if side = Buy then snd k < snd k' else snd k' < snd k)
                                      \<or> (snd k = snd k' \<and> ?a (fst k) < ?a (fst k')))
                              (fst m, fst (snd m)) (fst m', fst (snd m'))) ?queue"
      by (simp only: fst_conv snd_conv)
    from fills_priority [OF this, of ident "opposite side" qty]
    have "sorted_wrt (\<lambda>e e'. (if side = Buy then exec_price e < exec_price e'
                               else exec_price e' < exec_price e)
                              \<or> (exec_price e = exec_price e'
                                 \<and> ?a (maker_id e) < ?a (maker_id e')))
            (fills ident (opposite side) qty ?queue)"
      by (simp only: fst_conv snd_conv)
    moreover from True calls have "?calls = fills ident (opposite side) qty ?queue"
      by simp
    ultimately show ?thesis by (simp only:)
  qed
  let ?b' = "run Capacity (adds_at px (opposite side) adds)"
  let ?calls' = "snd (snd (add_order ?b' ident limit qty side True))"
  let ?queue' = "map (\<lambda>a. (fst a, px, snd a)) adds"
  have fifo: "distinct (map fst adds) \<and> (\<forall>a \<in> set adds. snd a \<noteq> 0) \<and> length adds \<le> Capacity
        \<and> ident \<notin> fst ` set adds \<and> (if side = Buy then px \<le> limit else limit \<le> px)
      \<longrightarrow> ?calls' = fills ident (opposite side) qty ?queue'
          \<and> map maker_id ?calls' = take (length ?calls') (map fst adds)"
  proof (intro impI, elim conjE)
    assume h: "distinct (map fst adds)" "\<forall>a \<in> set adds. snd a \<noteq> 0" "length adds \<le> Capacity"
       "ident \<notin> fst ` set adds" "if side = Buy then px \<le> limit else limit \<le> px"
    have c: "?calls' = fills ident (opposite side) qty ?queue'"
      using add_order_calls [OF run_store [of Capacity "adds_at px (opposite side) adds"],
              of ident limit qty side True]
            adds_at_unmapped [OF h(1-4), of px "opposite side"]
            adds_at_crossing_makers [OF h(1-3,5)]
      by simp
    have "map maker_id (fills ident (opposite side) qty ?queue')
          = take (length (fills ident (opposite side) qty ?queue')) (map fst adds)"
      using fills_makers [of ident "opposite side" qty ?queue']
      by (simp add: o_def)
    with c show "?calls' = fills ident (opposite side) qty ?queue'
                 \<and> map maker_id ?calls' = take (length ?calls') (map fst adds)"
      by simp
  qed
  show ?thesis
    by (rule conjI [OF calls conjI [OF price conjI [OF once conjI [OF full
          conjI [OF times conjI [OF stamps conjI [OF priority fifo]]]]]]])
qed


text \<open>
  A history with a cancel: order 9 arrives first at the price and is cancelled; orders 1, 2
  and 3 keep their places.
\<close>

definition after_cancel :: "Op list" where
  "after_cancel = [AddOrder 9 1000000 100 Buy True, AddOrder 1 1000000 100 Buy True,
                   AddOrder 2 1000000 100 Buy True, AddOrder 3 1000000 100 Buy True,
                   CancelOrder 9]"

text \<open>
  Scenario 5 of the specification (three bids at 1000000, a seller for 150: order 1 is
  filled, order 2 is filled for 50, order 3 is untouched), scenario 4 (bids at 1000000
  and 990000: the better price is executed first), and scenario 5 again after the cancel
  of an older order at the same price.
\<close>

theorem executions_price_time_priority_witness:
  "snd (snd (add_order (run 8 (adds_at 1000000 Buy [(1, 100), (2, 100), (3, 100)]))
                       4 990000 150 Sell True))
     = [\<lparr>maker_id = 1, taker_id = 4, exec_price = 1000000, exec_qty = 100, maker_side = Buy\<rparr>,
        \<lparr>maker_id = 2, taker_id = 4, exec_price = 1000000, exec_qty = 50, maker_side = Buy\<rparr>]
   \<and> snd (snd (add_order (run 8 [AddOrder 1 1000000 100 Buy True, AddOrder 2 990000 100 Buy True])
                         3 980000 150 Sell True))
     = [\<lparr>maker_id = 1, taker_id = 3, exec_price = 1000000, exec_qty = 100, maker_side = Buy\<rparr>,
        \<lparr>maker_id = 2, taker_id = 3, exec_price = 990000, exec_qty = 50, maker_side = Buy\<rparr>]
   \<and> snd (snd (add_order (run 8 after_cancel) 4 990000 150 Sell True))
     = [\<lparr>maker_id = 1, taker_id = 4, exec_price = 1000000, exec_qty = 100, maker_side = Buy\<rparr>,
        \<lparr>maker_id = 2, taker_id = 4, exec_price = 1000000, exec_qty = 50, maker_side = Buy\<rparr>]
   \<and> arrival 8 after_cancel 1 = 2 \<and> arrival 8 after_cancel 2 = 3
   \<and> arrival 8 after_cancel 1 < arrival 8 after_cancel 2"
proof -
  have side: "opposite Sell = Buy"
    by (simp add: opposite_def)
  have adds: "distinct (map fst [(1 :: u64, 100 :: u32), (2, 100), (3, 100)])
      \<and> (\<forall>a \<in> set [(1 :: u64, 100 :: u32), (2, 100), (3, 100)]. snd a \<noteq> 0)
      \<and> length [(1 :: u64, 100 :: u32), (2, 100), (3, 100)] \<le> 8
      \<and> (4 :: u64) \<notin> fst ` set [(1 :: u64, 100 :: u32), (2, 100), (3, 100)]
      \<and> (if Sell = Buy then (1000000 :: u64) \<le> 990000 else (990000 :: u64) \<le> 1000000)"
    by simp
  let ?b = "run 8 [AddOrder 1 1000000 100 Buy True, AddOrder 2 990000 100 Buy True]"
  have fresh: "order_map ?b 3 = None"
    by code_simp
  have queue: "crossing_makers ?b Sell 980000 = [(1, 1000000, 100), (2, 990000, 100)]"
    by code_simp
  have fresh': "order_map (run 8 after_cancel) 4 = None"
    by code_simp
  have queue': "crossing_makers (run 8 after_cancel) Sell 990000
                = [(1, 1000000, 100), (2, 1000000, 100), (3, 1000000, 100)]"
    by code_simp
  have stamps: "arrival 8 after_cancel 1 = 2" "arrival 8 after_cancel 2 = 3"
    by code_simp+
  from executions_price_time_priority [where Capacity = 8 and ops = "[]" and ident = 4
      and limit = 990000 and qty = 150 and side = Sell
      and adds = "[(1, 100), (2, 100), (3, 100)]" and px = 1000000] adds
  have 1: "snd (snd (add_order (run 8 (adds_at 1000000 Buy [(1, 100), (2, 100), (3, 100)]))
                            4 990000 150 Sell True))
        = fills 4 Buy 150 [(1, 1000000, 100), (2, 1000000, 100), (3, 1000000, 100)]"
    unfolding side by simp
  from executions_price_time_priority [where Capacity = 8
      and ops = "[AddOrder 1 1000000 100 Buy True, AddOrder 2 990000 100 Buy True]"
      and ident = 3 and limit = 980000 and qty = 150 and side = Sell
      and adds = "[]" and px = 0] fresh queue
  have 2: "snd (snd (add_order ?b 3 980000 150 Sell True))
        = fills 3 Buy 150 [(1, 1000000, 100), (2, 990000, 100)]"
    unfolding side by simp
  note t = executions_price_time_priority [where Capacity = 8 and ops = after_cancel
      and ident = 4 and limit = 990000 and qty = 150 and side = Sell
      and adds = "[]" and px = 0]
  from t fresh' queue'
  have 3: "snd (snd (add_order (run 8 after_cancel) 4 990000 150 Sell True))
        = fills 4 Buy 150 [(1, 1000000, 100), (2, 1000000, 100), (3, 1000000, 100)]"
    unfolding side by simp
  from t have "sorted_wrt (\<lambda>e e'. (if Sell = Buy then exec_price e < exec_price e'
                          else exec_price e' < exec_price e)
                         \<or> (exec_price e = exec_price e'
                            \<and> arrival 8 after_cancel (maker_id e)
                                < arrival 8 after_cancel (maker_id e')))
        (snd (snd (add_order (run 8 after_cancel) 4 990000 150 Sell True)))"
    by blast
  then have 4: "arrival 8 after_cancel 1 < arrival 8 after_cancel 2"
    unfolding 3 by simp
  from 1 2 3 4 stamps show ?thesis by simp
qed


subsection \<open>Pool exhaustion\<close>












section \<open>ITCH 5.0 messages\<close>

subsection \<open>compat.hpp: byte swaps\<close>

text \<open>
  \<^verbatim>\<open>kIsBigEndian\<close> is the host's byte order, fixed at compile time; it is a parameter
  here. On a little-endian host the swaps are the portable shift-and-mask expressions of
  the header (the compiler builtins and \<^verbatim>\<open>std::byteswap\<close> compute the same function).
\<close>

definition bswap16 :: "bool \<Rightarrow> u16 \<Rightarrow> u16" where
  "bswap16 kIsBigEndian val =
     (if kIsBigEndian then val else push_bit 8 val OR drop_bit 8 val)"

definition bswap32 :: "bool \<Rightarrow> u32 \<Rightarrow> u32" where
  "bswap32 kIsBigEndian val =
     (if kIsBigEndian then val
      else drop_bit 24 (val AND 0xFF000000) OR drop_bit 8 (val AND 0x00FF0000)
           OR push_bit 8 (val AND 0x0000FF00) OR push_bit 24 (val AND 0x000000FF))"

definition bswap64 :: "bool \<Rightarrow> u64 \<Rightarrow> u64" where
  "bswap64 kIsBigEndian val =
     (if kIsBigEndian then val
      else drop_bit 56 (val AND 0xFF00000000000000) OR drop_bit 40 (val AND 0x00FF000000000000)
           OR drop_bit 24 (val AND 0x0000FF0000000000) OR drop_bit 8 (val AND 0x000000FF00000000)
           OR push_bit 8 (val AND 0x00000000FF000000) OR push_bit 24 (val AND 0x0000000000FF0000)
           OR push_bit 40 (val AND 0x000000000000FF00) OR push_bit 56 (val AND 0x00000000000000FF))"

text \<open>
  \<^verbatim>\<open>ntoh<T>\<close> selects the swap by \<^verbatim>\<open>sizeof(T)\<close>; these are its instances at the
  three field types.
\<close>

definition ntoh_u16 :: "bool \<Rightarrow> u16 \<Rightarrow> u16" where
  "ntoh_u16 kIsBigEndian val = bswap16 kIsBigEndian val"

definition ntoh_u32 :: "bool \<Rightarrow> u32 \<Rightarrow> u32" where
  "ntoh_u32 kIsBigEndian val = bswap32 kIsBigEndian val"

definition ntoh_u64 :: "bool \<Rightarrow> u64 \<Rightarrow> u64" where
  "ntoh_u64 kIsBigEndian val = bswap64 kIsBigEndian val"

subsection \<open>messages.hpp: field views over a byte buffer\<close>

text \<open>
  A message is read in place: \<^verbatim>\<open>BigEndian<T>::value_\<close> is the \<open>T\<close> whose object
  representation is the field's bytes in the buffer, so its value is the host's reading
  of those bytes (least significant byte first on a little-endian host, most significant
  first on a big-endian one), and \<^verbatim>\<open>operator T()\<close> is \<^verbatim>\<open>ntoh(value_)\<close>.
\<close>

fun le_word :: "u8 list \<Rightarrow> 'a::len word" where
  "le_word [] = 0"
| "le_word (x # xs) = ucast x OR push_bit 8 (le_word xs)"

definition be_word :: "u8 list \<Rightarrow> 'a::len word" where
  "be_word xs = foldl (\<lambda>acc x. push_bit 8 acc OR ucast x) 0 xs"


definition be_nat :: "u8 list \<Rightarrow> nat" where
  "be_nat xs = foldl (\<lambda>acc x. 256 * acc + unat x) 0 xs"

definition host_word :: "bool \<Rightarrow> u8 list \<Rightarrow> 'a::len word" where
  "host_word kIsBigEndian xs = (if kIsBigEndian then be_word xs else le_word xs)"

definition be_u16 :: "bool \<Rightarrow> u8 list \<Rightarrow> u16" where
  "be_u16 kIsBigEndian xs = ntoh_u16 kIsBigEndian (host_word kIsBigEndian xs)"

definition be_u32 :: "bool \<Rightarrow> u8 list \<Rightarrow> u32" where
  "be_u32 kIsBigEndian xs = ntoh_u32 kIsBigEndian (host_word kIsBigEndian xs)"

definition be_u64 :: "bool \<Rightarrow> u8 list \<Rightarrow> u64" where
  "be_u64 kIsBigEndian xs = ntoh_u64 kIsBigEndian (host_word kIsBigEndian xs)"

text \<open>\<^verbatim>\<open>Timestamp48::nanoseconds\<close>, over the six bytes of the field.\<close>

definition nanoseconds :: "u8 list \<Rightarrow> u64" where
  "nanoseconds bytes =
     push_bit 40 (ucast (bytes ! 0)) OR push_bit 32 (ucast (bytes ! 1))
     OR push_bit 24 (ucast (bytes ! 2)) OR push_bit 16 (ucast (bytes ! 3))
     OR push_bit 8 (ucast (bytes ! 4)) OR ucast (bytes ! 5)"

text \<open>
  The fields of \<^verbatim>\<open>AddOrder\<close> and \<^verbatim>\<open>OrderExecuted\<close>, at the offsets the header
  asserts with \<^verbatim>\<open>offsetof\<close>. \<open>bytes_at buf off n\<close> is the field of \<open>n\<close> bytes at
  offset \<open>off\<close>.
\<close>

definition bytes_at :: "u8 list \<Rightarrow> nat \<Rightarrow> nat \<Rightarrow> u8 list" where
  "bytes_at buf off n = take n (drop off buf)"

definition AddOrder_stock_locate :: "bool \<Rightarrow> u8 list \<Rightarrow> u16" where
  "AddOrder_stock_locate k buf = be_u16 k (bytes_at buf 1 2)"

definition AddOrder_tracking_number :: "bool \<Rightarrow> u8 list \<Rightarrow> u16" where
  "AddOrder_tracking_number k buf = be_u16 k (bytes_at buf 3 2)"

definition AddOrder_timestamp :: "u8 list \<Rightarrow> u64" where
  "AddOrder_timestamp buf = nanoseconds (bytes_at buf 5 6)"

definition AddOrder_order_ref :: "bool \<Rightarrow> u8 list \<Rightarrow> u64" where
  "AddOrder_order_ref k buf = be_u64 k (bytes_at buf 11 8)"

definition AddOrder_shares :: "bool \<Rightarrow> u8 list \<Rightarrow> u32" where
  "AddOrder_shares k buf = be_u32 k (bytes_at buf 20 4)"

definition AddOrder_price :: "bool \<Rightarrow> u8 list \<Rightarrow> u32" where
  "AddOrder_price k buf = be_u32 k (bytes_at buf 32 4)"

definition OrderExecuted_stock_locate :: "bool \<Rightarrow> u8 list \<Rightarrow> u16" where
  "OrderExecuted_stock_locate k buf = be_u16 k (bytes_at buf 1 2)"

definition OrderExecuted_tracking_number :: "bool \<Rightarrow> u8 list \<Rightarrow> u16" where
  "OrderExecuted_tracking_number k buf = be_u16 k (bytes_at buf 3 2)"

definition OrderExecuted_timestamp :: "u8 list \<Rightarrow> u64" where
  "OrderExecuted_timestamp buf = nanoseconds (bytes_at buf 5 6)"

definition OrderExecuted_order_ref :: "bool \<Rightarrow> u8 list \<Rightarrow> u64" where
  "OrderExecuted_order_ref k buf = be_u64 k (bytes_at buf 11 8)"

definition OrderExecuted_executed_shares :: "bool \<Rightarrow> u8 list \<Rightarrow> u32" where
  "OrderExecuted_executed_shares k buf = be_u32 k (bytes_at buf 19 4)"

definition OrderExecuted_match_number :: "bool \<Rightarrow> u8 list \<Rightarrow> u64" where
  "OrderExecuted_match_number k buf = be_u64 k (bytes_at buf 23 8)"

text \<open>
  The mathematical big-endian value of a byte sequence, most significant byte first
  (\<open>be_nat\<close> above), and the wire layout of an Add Order message as the specification
  documents it: each integer field laid out big-endian at its offset.
\<close>

fun be_bytes :: "nat \<Rightarrow> nat \<Rightarrow> u8 list" where
  "be_bytes 0 v = []"
| "be_bytes (Suc n) v = be_bytes n (v div 256) @ [of_nat (v mod 256)]"

definition AddOrder_layout ::
  "u8 \<Rightarrow> nat \<Rightarrow> nat \<Rightarrow> nat \<Rightarrow> nat \<Rightarrow> u8 \<Rightarrow> nat \<Rightarrow> u8 list \<Rightarrow> nat \<Rightarrow> u8 list" where
  "AddOrder_layout msg_type locate tracking ts order_ref side shares symbol px =
     [msg_type] @ be_bytes 2 locate @ be_bytes 2 tracking @ be_bytes 6 ts
     @ be_bytes 8 order_ref @ [side] @ be_bytes 4 shares @ symbol @ be_bytes 4 px"

subsection \<open>StockSymbol::equals\<close>

text \<open>
  \<open>data\<close> is the eight bytes of the slot. The query is a C string, given as the list
  of its characters before the terminating NUL; \<open>cstr_at str i\<close> is \<^verbatim>\<open>str[i]\<close>, the
  terminator at index \<open>length str\<close>. The two loops return \<open>None\<close> where the source
  returns false from inside the loop, and the final index otherwise. (A read beyond the
  terminator happens only in the last line, for a query shorter than eight characters,
  where \<^verbatim>\<open>|| i == 8\<close> makes the value read irrelevant.)
\<close>

definition cstr_at :: "string \<Rightarrow> nat \<Rightarrow> char" where
  "cstr_at str i = (if i < length str then str ! i else CHR 0x00)"

function equals_match :: "string \<Rightarrow> string \<Rightarrow> nat \<Rightarrow> nat option" where
  "equals_match data str i =
     (if i < 8 \<and> cstr_at str i \<noteq> CHR 0x00
      then (if data ! i \<noteq> cstr_at str i then None else equals_match data str (i + 1))
      else Some i)"
  by pat_completeness auto
termination
  by (relation "measure (\<lambda>(data, str, i). 8 - i)") auto

function equals_pad :: "string \<Rightarrow> nat \<Rightarrow> nat option" where
  "equals_pad data i =
     (if i < 8
      then (if data ! i \<noteq> CHR '' '' then None else equals_pad data (i + 1))
      else Some i)"
  by pat_completeness auto
termination
  by (relation "measure (\<lambda>(data, i). 8 - i)") auto

definition equals :: "string \<Rightarrow> string \<Rightarrow> bool" where
  "equals data str =
     (case equals_match data str 0 of
        None \<Rightarrow> False
      | Some i \<Rightarrow>
          (case equals_pad data i of
             None \<Rightarrow> False
           | Some j \<Rightarrow> cstr_at str j = CHR 0x00 \<or> j = 8))"

declare equals_match.simps [simp del] equals_pad.simps [simp del]

section \<open>Properties of the ITCH decoder\<close>

subsection \<open>Byte swaps and big-endian values\<close>

lemma masks64:
  "(0xFF00000000000000 :: u64) = push_bit 56 (mask 8)"
  "(0x00FF000000000000 :: u64) = push_bit 48 (mask 8)"
  "(0x0000FF0000000000 :: u64) = push_bit 40 (mask 8)"
  "(0x000000FF00000000 :: u64) = push_bit 32 (mask 8)"
  "(0x00000000FF000000 :: u64) = push_bit 24 (mask 8)"
  "(0x0000000000FF0000 :: u64) = push_bit 16 (mask 8)"
  "(0x000000000000FF00 :: u64) = push_bit 8 (mask 8)"
  "(0x00000000000000FF :: u64) = mask 8"
  by (simp_all add: mask_eq_exp_minus_1 push_bit_eq_mult)

lemma masks32:
  "(0xFF000000 :: u32) = push_bit 24 (mask 8)"
  "(0x00FF0000 :: u32) = push_bit 16 (mask 8)"
  "(0x0000FF00 :: u32) = push_bit 8 (mask 8)"
  "(0x000000FF :: u32) = mask 8"
  by (simp_all add: mask_eq_exp_minus_1 push_bit_eq_mult)

lemma and_byte_mask:
  "(x :: 'a::len word) AND push_bit s (mask 8) = push_bit s (take_bit 8 (drop_bit s x))"
  by (rule bit_eqI) (auto simp: bit_simps)

lemma and_low_byte_mask: "(x :: 'a::len word) AND mask 8 = take_bit 8 x"
  by (simp add: take_bit_eq_mask)

lemma byte_low: "take_bit 8 (ucast (b :: u8) :: 'a::len word) = ucast b"
  by (rule bit_eqI) (auto simp: bit_simps dest: bit_imp_le_length)

lemma byte_low_shifted: "8 \<le> d \<Longrightarrow> take_bit 8 (push_bit d (y :: 'a::len word)) = 0"
  by (rule bit_eqI) (auto simp: bit_simps)

lemma byte_drop: "8 \<le> s \<Longrightarrow> drop_bit s (ucast (b :: u8) :: 'a::len word) = 0"
  by (rule bit_eqI) (auto simp: bit_simps dest: bit_imp_le_length)

lemma byte_drop_above:
  "t + 8 \<le> s \<Longrightarrow> drop_bit s (push_bit t (ucast (b :: u8) :: 'a::len word)) = 0"
  by (rule bit_eqI) (auto simp: bit_simps dest: bit_imp_le_length)

lemma byte_drop_below:
  "s \<le> t \<Longrightarrow> t + 8 \<le> LENGTH('a)
   \<Longrightarrow> drop_bit s (push_bit t (ucast (b :: u8) :: 'a::len word)) = push_bit (t - s) (ucast b)"
  by (rule bit_eqI) (auto simp: bit_simps add.commute dest: bit_imp_le_length)

lemmas byte_simps = and_byte_mask and_low_byte_mask byte_low byte_low_shifted byte_drop
  byte_drop_above byte_drop_below

lemma bswap16_le: "bswap16 False (le_word [b0, b1]) = be_word [b0, b1]"
  by (simp add: bswap16_def be_word_def byte_simps or.commute)

lemma bswap32_le: "bswap32 False (le_word [b0, b1, b2, b3]) = be_word [b0, b1, b2, b3]"
  by (simp add: bswap32_def be_word_def masks32 byte_simps or.commute or.left_commute or.assoc
           del: mask_numeral)

lemma bswap64_le:
  "bswap64 False (le_word [b0, b1, b2, b3, b4, b5, b6, b7]) = be_word [b0, b1, b2, b3, b4, b5, b6, b7]"
  by (simp add: bswap64_def be_word_def masks64 byte_simps or.commute or.left_commute or.assoc
           del: mask_numeral)


lemma be_word_snoc: "be_word (xs @ [x]) = push_bit 8 (be_word xs) OR ucast x"
  by (simp add: be_word_def)

lemma be_nat_snoc: "be_nat (xs @ [x]) = 256 * be_nat xs + unat x"
  by (simp add: be_nat_def)

lemma be_nat_bound: "be_nat xs < 256 ^ length xs"
proof (induction xs rule: rev_induct)
  case Nil
  show ?case by (simp add: be_nat_def)
next
  case (snoc x xs)
  have "unat x < 256" using unsigned_less [of x] by simp
  with snoc show ?case by (simp add: be_nat_snoc)
qed

lemma unat_be_word:
  "8 * length xs \<le> LENGTH('a) \<Longrightarrow> unat (be_word xs :: 'a::len word) = be_nat xs"
proof (induction xs rule: rev_induct)
  case Nil
  show ?case by (simp add: be_word_def be_nat_def)
next
  case (snoc x xs)
  let ?w = "be_word xs :: 'a word"
  from snoc have ih: "unat ?w = be_nat xs" by simp
  have x: "unat x < 256" using unsigned_less [of x] by simp
  have "256 * be_nat xs + unat x < 256 * 256 ^ length xs"
    using be_nat_bound [of xs] x by simp
  also have "\<dots> = 2 ^ (8 * (length xs + 1))"
    by (simp add: power_mult power_add)
  also have "\<dots> \<le> 2 ^ LENGTH('a)"
    using snoc.prems by (intro power_increasing) simp_all
  finally have fits: "256 * be_nat xs + unat x < 2 ^ LENGTH('a)" .
  have disj: "push_bit 8 ?w AND ucast x = 0"
    by (rule bit_eqI) (auto simp: bit_simps dest: bit_imp_le_length)
  have "push_bit 8 ?w OR ucast x = push_bit 8 ?w + ucast x"
    by (simp add: disjunctive_add_eq_or [OF disj])
  also have "\<dots> = of_nat (256 * be_nat xs + unat x)"
    by (simp add: push_bit_eq_mult ih [symmetric] mult.commute)
  finally have "be_word (xs @ [x]) = (of_nat (256 * be_nat xs + unat x) :: 'a word)"
    by (simp add: be_word_snoc)
  moreover from fits have
    "unat (of_nat (256 * be_nat xs + unat x) :: 'a word) = 256 * be_nat xs + unat x"
    by (simp only: unat_of_nat mod_less)
  ultimately show ?case
    by (simp only: be_nat_snoc)
qed

lemma list2: "length xs = 2 \<Longrightarrow> \<exists>a b. xs = [a, b]"
  by (auto simp: length_Suc_conv eval_nat_numeral)

lemma list4: "length xs = 4 \<Longrightarrow> \<exists>a b c d. xs = [a, b, c, d]"
  by (auto simp: length_Suc_conv eval_nat_numeral)

lemma list6: "length xs = 6 \<Longrightarrow> \<exists>a b c d e f. xs = [a, b, c, d, e, f]"
  by (auto simp: length_Suc_conv eval_nat_numeral)

lemma list8: "length xs = 8 \<Longrightarrow> \<exists>a b c d e f g h. xs = [a, b, c, d, e, f, g, h]"
  by (auto simp: length_Suc_conv eval_nat_numeral)

lemma be_u16_value: "length xs = 2 \<Longrightarrow> unat (be_u16 k xs) = be_nat xs"
proof -
  assume len: "length xs = 2"
  then obtain a b where xs: "xs = [a, b]" using list2 by blast
  have "be_u16 k xs = be_word xs"
  proof (cases k)
    case True
    then show ?thesis by (simp add: be_u16_def ntoh_u16_def host_word_def bswap16_def)
  next
    case False
    then show ?thesis
      unfolding be_u16_def ntoh_u16_def host_word_def xs by (simp only: if_False bswap16_le)
  qed
  with len show ?thesis by (simp add: unat_be_word)
qed

lemma be_u32_value: "length xs = 4 \<Longrightarrow> unat (be_u32 k xs) = be_nat xs"
proof -
  assume len: "length xs = 4"
  then obtain a b c d where xs: "xs = [a, b, c, d]" using list4 by blast
  have "be_u32 k xs = be_word xs"
  proof (cases k)
    case True
    then show ?thesis by (simp add: be_u32_def ntoh_u32_def host_word_def bswap32_def)
  next
    case False
    then show ?thesis
      unfolding be_u32_def ntoh_u32_def host_word_def xs by (simp only: if_False bswap32_le)
  qed
  with len show ?thesis by (simp add: unat_be_word)
qed

lemma be_u64_value: "length xs = 8 \<Longrightarrow> unat (be_u64 k xs) = be_nat xs"
proof -
  assume len: "length xs = 8"
  then obtain a b c d e f g h where xs: "xs = [a, b, c, d, e, f, g, h]" using list8 by blast
  have "be_u64 k xs = be_word xs"
  proof (cases k)
    case True
    then show ?thesis by (simp add: be_u64_def ntoh_u64_def host_word_def bswap64_def)
  next
    case False
    then show ?thesis
      unfolding be_u64_def ntoh_u64_def host_word_def xs by (simp only: if_False bswap64_le)
  qed
  with len show ?thesis by (simp add: unat_be_word)
qed

lemma nanoseconds_value: "length xs = 6 \<Longrightarrow> unat (nanoseconds xs) = be_nat xs"
proof -
  assume len: "length xs = 6"
  then obtain a b c d e f where xs: "xs = [a, b, c, d, e, f]" using list6 by blast
  have "nanoseconds xs = be_word xs"
    by (simp add: nanoseconds_def xs be_word_def or.assoc)
  with len show ?thesis by (simp add: unat_be_word)
qed

lemma length_be_bytes [simp]: "length (be_bytes n v) = n"
  by (induction n arbitrary: v) simp_all

lemma be_nat_be_bytes: "be_nat (be_bytes n v) = v mod 256 ^ n"
proof (induction n arbitrary: v)
  case 0
  show ?case by (simp add: be_nat_def)
next
  case (Suc n)
  have "unat (of_nat (v mod 256) :: u8) = v mod 256"
    by (simp add: unat_of_nat)
  with Suc show ?case
    by (simp add: be_nat_snoc mod_mult2_eq)
qed

lemma length_bytes_at: "off + n \<le> length buf \<Longrightarrow> length (bytes_at buf off n) = n"
  by (simp add: bytes_at_def)

lemma AddOrder_layout_fields:
  assumes "length symbol = 8"
  shows "bytes_at (AddOrder_layout t locate tracking ts order_ref side shares symbol px) 1 2
           = be_bytes 2 locate"
    and "bytes_at (AddOrder_layout t locate tracking ts order_ref side shares symbol px) 3 2
           = be_bytes 2 tracking"
    and "bytes_at (AddOrder_layout t locate tracking ts order_ref side shares symbol px) 5 6
           = be_bytes 6 ts"
    and "bytes_at (AddOrder_layout t locate tracking ts order_ref side shares symbol px) 11 8
           = be_bytes 8 order_ref"
    and "bytes_at (AddOrder_layout t locate tracking ts order_ref side shares symbol px) 20 4
           = be_bytes 4 shares"
    and "bytes_at (AddOrder_layout t locate tracking ts order_ref side shares symbol px) 32 4
           = be_bytes 4 px"
    and "length (AddOrder_layout t locate tracking ts order_ref side shares symbol px) = 36"
  using assms by (simp_all add: bytes_at_def AddOrder_layout_def)

text \<open>
  C9. The decoding primitives are total functions of the bytes they read. For every
  buffer that holds a whole message (36 bytes for Add Order, 31 for Order Executed) and
  on either host byte order, every 16-, 32- and 64-bit field and the 48-bit timestamp
  decode to the big-endian value of the bytes at the field's offset. Consequently a
  buffer laid out from field values, big-endian at the documented offsets, decodes to
  exactly those values.
\<close>

theorem itch_fields_big_endian:
  "(36 \<le> length buf \<longrightarrow>
      unat (AddOrder_stock_locate k buf) = be_nat (bytes_at buf 1 2)
    \<and> unat (AddOrder_tracking_number k buf) = be_nat (bytes_at buf 3 2)
    \<and> unat (AddOrder_timestamp buf) = be_nat (bytes_at buf 5 6)
    \<and> unat (AddOrder_order_ref k buf) = be_nat (bytes_at buf 11 8)
    \<and> unat (AddOrder_shares k buf) = be_nat (bytes_at buf 20 4)
    \<and> unat (AddOrder_price k buf) = be_nat (bytes_at buf 32 4))
   \<and> (31 \<le> length buf \<longrightarrow>
      unat (OrderExecuted_stock_locate k buf) = be_nat (bytes_at buf 1 2)
    \<and> unat (OrderExecuted_tracking_number k buf) = be_nat (bytes_at buf 3 2)
    \<and> unat (OrderExecuted_timestamp buf) = be_nat (bytes_at buf 5 6)
    \<and> unat (OrderExecuted_order_ref k buf) = be_nat (bytes_at buf 11 8)
    \<and> unat (OrderExecuted_executed_shares k buf) = be_nat (bytes_at buf 19 4)
    \<and> unat (OrderExecuted_match_number k buf) = be_nat (bytes_at buf 23 8))
   \<and> (locate < 2 ^ 16 \<and> tracking < 2 ^ 16 \<and> ts < 2 ^ 48 \<and> order_ref < 2 ^ 64
        \<and> shares < 2 ^ 32 \<and> px < 2 ^ 32 \<and> length symbol = 8 \<longrightarrow>
      unat (AddOrder_stock_locate k
              (AddOrder_layout t locate tracking ts order_ref side shares symbol px)) = locate
    \<and> unat (AddOrder_tracking_number k
              (AddOrder_layout t locate tracking ts order_ref side shares symbol px)) = tracking
    \<and> unat (AddOrder_timestamp
              (AddOrder_layout t locate tracking ts order_ref side shares symbol px)) = ts
    \<and> unat (AddOrder_order_ref k
              (AddOrder_layout t locate tracking ts order_ref side shares symbol px)) = order_ref
    \<and> unat (AddOrder_shares k
              (AddOrder_layout t locate tracking ts order_ref side shares symbol px)) = shares
    \<and> unat (AddOrder_price k
              (AddOrder_layout t locate tracking ts order_ref side shares symbol px)) = px)"
proof (intro conjI impI)
  assume "36 \<le> length buf"
  then show "unat (AddOrder_stock_locate k buf) = be_nat (bytes_at buf 1 2)"
    and "unat (AddOrder_tracking_number k buf) = be_nat (bytes_at buf 3 2)"
    and "unat (AddOrder_timestamp buf) = be_nat (bytes_at buf 5 6)"
    and "unat (AddOrder_order_ref k buf) = be_nat (bytes_at buf 11 8)"
    and "unat (AddOrder_shares k buf) = be_nat (bytes_at buf 20 4)"
    and "unat (AddOrder_price k buf) = be_nat (bytes_at buf 32 4)"
    by (simp_all add: AddOrder_stock_locate_def AddOrder_tracking_number_def
          AddOrder_timestamp_def AddOrder_order_ref_def AddOrder_shares_def AddOrder_price_def
          be_u16_value be_u32_value be_u64_value nanoseconds_value length_bytes_at)
next
  assume "31 \<le> length buf"
  then show "unat (OrderExecuted_stock_locate k buf) = be_nat (bytes_at buf 1 2)"
    and "unat (OrderExecuted_tracking_number k buf) = be_nat (bytes_at buf 3 2)"
    and "unat (OrderExecuted_timestamp buf) = be_nat (bytes_at buf 5 6)"
    and "unat (OrderExecuted_order_ref k buf) = be_nat (bytes_at buf 11 8)"
    and "unat (OrderExecuted_executed_shares k buf) = be_nat (bytes_at buf 19 4)"
    and "unat (OrderExecuted_match_number k buf) = be_nat (bytes_at buf 23 8)"
    by (simp_all add: OrderExecuted_stock_locate_def OrderExecuted_tracking_number_def
          OrderExecuted_timestamp_def OrderExecuted_order_ref_def
          OrderExecuted_executed_shares_def OrderExecuted_match_number_def
          be_u16_value be_u32_value be_u64_value nanoseconds_value length_bytes_at)
next
  let ?buf = "AddOrder_layout t locate tracking ts order_ref side shares symbol px"
  assume r: "locate < 2 ^ 16 \<and> tracking < 2 ^ 16 \<and> ts < 2 ^ 48 \<and> order_ref < 2 ^ 64
        \<and> shares < 2 ^ 32 \<and> px < 2 ^ 32 \<and> length symbol = 8"
  then have sym: "length symbol = 8" by simp
  note f = AddOrder_layout_fields [OF sym, of t locate tracking ts order_ref side shares px]
  from r show "unat (AddOrder_stock_locate k ?buf) = locate"
    unfolding AddOrder_stock_locate_def f(1) by (simp add: be_u16_value be_nat_be_bytes)
  from r show "unat (AddOrder_tracking_number k ?buf) = tracking"
    unfolding AddOrder_tracking_number_def f(2) by (simp add: be_u16_value be_nat_be_bytes)
  from r show "unat (AddOrder_timestamp ?buf) = ts"
    unfolding AddOrder_timestamp_def f(3) by (simp add: nanoseconds_value be_nat_be_bytes)
  from r show "unat (AddOrder_order_ref k ?buf) = order_ref"
    unfolding AddOrder_order_ref_def f(4) by (simp add: be_u64_value be_nat_be_bytes)
  from r show "unat (AddOrder_shares k ?buf) = shares"
    unfolding AddOrder_shares_def f(5) by (simp add: be_u32_value be_nat_be_bytes)
  from r show "unat (AddOrder_price k ?buf) = px"
    unfolding AddOrder_price_def f(6) by (simp add: be_u32_value be_nat_be_bytes)
qed

text \<open>
  Scenario 6 of the specification: type \<open>A\<close>, stock locate 1, tracking number 2,
  timestamp \<open>10\<^sup>9\<close> ns, order reference 1234567890, side \<open>B\<close>, 500 shares of
  \<open>AAPL\<close> at 1000000.
\<close>

definition scenario6 :: "u8 list" where
  "scenario6 =
     [0x41, 0x00, 0x01, 0x00, 0x02, 0x00, 0x00, 0x3B, 0x9A, 0xCA, 0x00,
      0x00, 0x00, 0x00, 0x00, 0x49, 0x96, 0x02, 0xD2, 0x42,
      0x00, 0x00, 0x01, 0xF4, 0x41, 0x41, 0x50, 0x4C, 0x20, 0x20, 0x20, 0x20,
      0x00, 0x0F, 0x42, 0x40]"

theorem itch_fields_big_endian_witness:
  "36 \<le> length scenario6
   \<and> unat (AddOrder_stock_locate False scenario6) = 1
   \<and> unat (AddOrder_tracking_number False scenario6) = 2
   \<and> unat (AddOrder_timestamp scenario6) = 1000000000
   \<and> unat (AddOrder_order_ref False scenario6) = 1234567890
   \<and> unat (AddOrder_shares False scenario6) = 500
   \<and> unat (AddOrder_price False scenario6) = 1000000"
proof -
  have len: "36 \<le> length scenario6"
    by (simp add: scenario6_def)
  have vals: "be_nat (bytes_at scenario6 1 2) = 1" "be_nat (bytes_at scenario6 3 2) = 2"
    "be_nat (bytes_at scenario6 5 6) = 1000000000"
    "be_nat (bytes_at scenario6 11 8) = 1234567890"
    "be_nat (bytes_at scenario6 20 4) = 500" "be_nat (bytes_at scenario6 32 4) = 1000000"
    by (simp_all add: scenario6_def bytes_at_def be_nat_def)
  from itch_fields_big_endian [of scenario6 False] len vals show ?thesis
    by simp
qed

subsection \<open>Symbol equality\<close>

text \<open>The test \<^verbatim>\<open>MatchesExactSymbol\<close> of the repository, on the model.\<close>

lemma equals_MatchesExactSymbol:
  "equals ''AAPL    '' ''AAPL'' \<and> equals ''AAPL    '' ''AAPL    ''
   \<and> \<not> equals ''AAPL    '' ''GOOG'' \<and> \<not> equals ''AAPL    '' ''AAP''"
  by code_simp

text \<open>
  C8. The claim requires a query longer than the slot not to compare equal. The source
  means to check this (``verify str doesn't have extra characters beyond 8''), but its
  last line is \<^verbatim>\<open>return str[i] == '\0' || i == 8\<close> with \<open>i = 8\<close> always: the
  nine-character query \<open>ABCDEFGHI\<close> compares equal to the slot \<open>ABCDEFGH\<close>.
\<close>

theorem equals_overlong_query: "equals ''ABCDEFGH'' ''ABCDEFGHI''"
  by code_simp

text \<open>
  What \<^verbatim>\<open>equals\<close> computes in general: the first eight characters of the query,
  padded with spaces, are compared with the slot; anything after them is ignored.
\<close>

lemma all_from_step:
  fixes i :: nat
  assumes "P i"
  shows "(\<forall>j. i \<le> j \<and> j < m \<longrightarrow> P j) \<longleftrightarrow> (\<forall>j. i + 1 \<le> j \<and> j < m \<longrightarrow> P j)"
proof (intro iffI allI impI)
  fix j
  assume "\<forall>j. i \<le> j \<and> j < m \<longrightarrow> P j" and "i + 1 \<le> j \<and> j < m"
  then show "P j" by simp
next
  fix j
  assume a: "\<forall>j. i + 1 \<le> j \<and> j < m \<longrightarrow> P j" and b: "i \<le> j \<and> j < m"
  show "P j"
  proof (cases "j = i")
    case True
    with assms show ?thesis by simp
  next
    case False
    with b have "i + 1 \<le> j \<and> j < m" by simp
    with a show ?thesis by blast
  qed
qed

lemma equals_match_eq:
  "i \<le> 8 \<Longrightarrow> i \<le> length str \<Longrightarrow> CHR 0x00 \<notin> set str
   \<Longrightarrow> equals_match data str i =
       (if \<forall>j. i \<le> j \<and> j < min 8 (length str) \<longrightarrow> data ! j = str ! j
        then Some (min 8 (length str)) else None)"
proof (induction data str i rule: equals_match.induct)
  case (1 data str i)
  show ?case
  proof (cases "i < 8 \<and> i < length str")
    case False
    with "1.prems" have "min 8 (length str) = i" by auto
    moreover from False "1.prems" have "\<not> (i < 8 \<and> cstr_at str i \<noteq> CHR 0x00)"
      by (auto simp: cstr_at_def)
    ultimately show ?thesis
      by (subst equals_match.simps) auto
  next
    case True
    with "1.prems" have nz: "cstr_at str i = str ! i" "str ! i \<noteq> CHR 0x00"
      by (auto simp: cstr_at_def dest: nth_mem)
    show ?thesis
    proof (cases "data ! i = str ! i")
      case False
      with True nz show ?thesis
        by (auto simp: equals_match.simps [of data str i])
    next
      case same: True
      from True nz have g: "i < 8 \<and> cstr_at str i \<noteq> CHR 0x00" by simp
      from same nz have ne: "\<not> data ! i \<noteq> cstr_at str i" by simp
      have ih: "equals_match data str (i + 1) =
        (if \<forall>j. i + 1 \<le> j \<and> j < min 8 (length str) \<longrightarrow> data ! j = str ! j
         then Some (min 8 (length str)) else None)"
        using "1.IH" [OF g ne] True "1.prems" by simp
      have "(\<forall>j. i \<le> j \<and> j < min 8 (length str) \<longrightarrow> data ! j = str ! j)
            \<longleftrightarrow> (\<forall>j. i + 1 \<le> j \<and> j < min 8 (length str) \<longrightarrow> data ! j = str ! j)"
        using same by (rule all_from_step [of "\<lambda>j. data ! j = str ! j"])
      with g ne ih show ?thesis
        by (simp add: equals_match.simps [of data str i])
    qed
  qed
qed

lemma equals_pad_eq:
  "i \<le> 8 \<Longrightarrow> equals_pad data i =
       (if \<forall>j. i \<le> j \<and> j < 8 \<longrightarrow> data ! j = CHR '' '' then Some 8 else None)"
proof (induction data i rule: equals_pad.induct)
  case (1 data i)
  show ?case
  proof (cases "i < 8")
    case False
    with "1.prems" show ?thesis by (subst equals_pad.simps) auto
  next
    case True
    show ?thesis
    proof (cases "data ! i = CHR '' ''")
      case False
      with True show ?thesis by (auto simp: equals_pad.simps [of data i])
    next
      case same: True
      then have ne: "\<not> data ! i \<noteq> CHR '' ''" by simp
      have ih: "equals_pad data (i + 1) =
        (if \<forall>j. i + 1 \<le> j \<and> j < 8 \<longrightarrow> data ! j = CHR '' '' then Some 8 else None)"
        using "1.IH" [OF True ne] True by simp
      have "(\<forall>j. i \<le> j \<and> j < 8 \<longrightarrow> data ! j = CHR '' '')
            \<longleftrightarrow> (\<forall>j. i + 1 \<le> j \<and> j < 8 \<longrightarrow> data ! j = CHR '' '')"
        using same by (rule all_from_step [of "\<lambda>j. data ! j = CHR '' ''"])
      with True ne ih show ?thesis
        by (simp add: equals_pad.simps [of data i])
    qed
  qed
qed

lemma equals_iff:
  assumes "CHR 0x00 \<notin> set str"
  shows "equals data str \<longleftrightarrow>
           (\<forall>j < 8. data ! j = (if j < length str then str ! j else CHR '' ''))"
proof -
  let ?m = "min 8 (length str)"
  let ?rhs = "\<forall>j < 8. data ! j = (if j < length str then str ! j else CHR '' '')"
  have m: "equals_match data str 0 =
       (if \<forall>j. j < ?m \<longrightarrow> data ! j = str ! j then Some ?m else None)"
    using equals_match_eq [of 0 str data] assms by simp
  have p: "equals_pad data ?m =
       (if \<forall>j. ?m \<le> j \<and> j < 8 \<longrightarrow> data ! j = CHR '' '' then Some 8 else None)"
    by (rule equals_pad_eq) simp
  have lt: "\<And>j. j < ?m \<longleftrightarrow> j < 8 \<and> j < length str"
    by simp
  have ge: "\<And>j. j < 8 \<Longrightarrow> ?m \<le> j \<longleftrightarrow> \<not> j < length str"
    by (simp add: min_def not_less)
  show ?thesis
  proof (cases "\<forall>j. j < ?m \<longrightarrow> data ! j = str ! j")
    case False
    then obtain j where j: "j < ?m" "data ! j \<noteq> str ! j" by blast
    have em: "equals_match data str 0 = None"
      by (rule trans [OF m if_not_P [OF False]])
    have "\<not> equals data str"
      unfolding equals_def by (simp only: em option.case simp_thms)
    moreover from j lt [of j] have "j < 8" "data ! j \<noteq> (if j < length str then str ! j else CHR '' '')"
      by simp_all
    then have "\<not> ?rhs" by blast
    ultimately show ?thesis by blast
  next
    case lead: True
    have em: "equals_match data str 0 = Some ?m"
      by (rule trans [OF m if_P [OF lead]])
    show ?thesis
    proof (cases "\<forall>j. ?m \<le> j \<and> j < 8 \<longrightarrow> data ! j = CHR '' ''")
      case False
      then obtain j where j: "?m \<le> j" "j < 8" "data ! j \<noteq> CHR '' ''" by blast
      have ep: "equals_pad data ?m = None"
        by (rule trans [OF p if_not_P [OF False]])
      have "\<not> equals data str"
        unfolding equals_def by (simp only: em ep option.case simp_thms)
      moreover from j ge [of j] have "data ! j \<noteq> (if j < length str then str ! j else CHR '' '')"
        by simp
      with j(2) have "\<not> ?rhs" by blast
      ultimately show ?thesis by blast
    next
      case True
      have ep: "equals_pad data ?m = Some 8"
        by (rule trans [OF p if_P [OF True]])
      have "equals data str"
        unfolding equals_def by (simp only: em ep option.case simp_thms)
      moreover have ?rhs
      proof (intro allI impI)
        fix j :: nat
        assume j8: "j < 8"
        show "data ! j = (if j < length str then str ! j else CHR '' '')"
        proof (cases "j < length str")
          case True
          with j8 lt [of j] lead show ?thesis by simp
        next
          case False
          with j8 ge [of j] True show ?thesis by simp
        qed
      qed
      ultimately show ?thesis by blast
    qed
  qed
qed

end
